theory Spec2Isabelle
  imports Main "HOL-Library.Sublist"
begin

section \<open>IronBee Predicate: the functional evaluation framework\<close>

text \<open>
  A shallow embedding of \<^verbatim>\<open>src/predicate/functional.cpp\<close>: of the call node
  \<^verbatim>\<open>Impl::Call\<close> the functions \<^verbatim>\<open>pre_transform\<close>, \<^verbatim>\<open>transform\<close> (with
  \<^verbatim>\<open>prepare_call\<close>), \<^verbatim>\<open>eval_initialize\<close> and \<^verbatim>\<open>eval_calculate\<close> (with
  \<^verbatim>\<open>validate_args\<close>); and of the functional bases \<^verbatim>\<open>Simple::eval\<close>,
  \<^verbatim>\<open>Each::eval_initialize\<close>, \<^verbatim>\<open>Each::eval_primary\<close> and the hooks
  \<^verbatim>\<open>ready\<close> and \<^verbatim>\<open>eval_each\<close> of \<^verbatim>\<open>Each\<close>, \<^verbatim>\<open>Map\<close>, \<^verbatim>\<open>Filter\<close> and
  \<^verbatim>\<open>Selector\<close>.  The definitions come first, the lemmas and theorems after them.

  The classes the file works with (\<^verbatim>\<open>Value\<close>, \<^verbatim>\<open>Node\<close>, \<^verbatim>\<open>NodeEvalState\<close>,
  \<^verbatim>\<open>GraphEvalState\<close>, the reporters, \<^verbatim>\<open>MergeGraph\<close>) are declared in headers
  that are not among the sources; what is used of them is modelled from the spec and
  marked so.  The functions a concrete functional supplies (\<^verbatim>\<open>validate_argument\<close>,
  \<^verbatim>\<open>eval_simple\<close>, \<^verbatim>\<open>eval_map\<close>, \<^verbatim>\<open>eval_filter\<close>, \<^verbatim>\<open>eval_selector\<close>) are
  parameters.  The memory manager argument \<^verbatim>\<open>mm\<close> only says where results are
  allocated; it is left out of every function below.
\<close>

subsection \<open>Values\<close>

text \<open>
  Modelled from the spec: the class \<^verbatim>\<open>Value\<close> (value.hpp is not among the sources).
  Section 3 gives it as a variant of null, scalars and named ordered lists.  Only the
  name of a list is read by the code below (\<^verbatim>\<open>Map::ready\<close>), so only lists carry
  one here.  A default constructed \<^verbatim>\<open>Value()\<close> is \<open>Null\<close>.
\<close>

datatype val = Null | Number int | Bytes string | ListV string "val list"

fun is_null :: "val \<Rightarrow> bool" where
  "is_null Null = True"
| "is_null _ = False"

text \<open>\<^verbatim>\<open>v.type() == Value::LIST\<close>\<close>

fun type_is_LIST :: "val \<Rightarrow> bool" where
  "type_is_LIST (ListV _ _) = True"
| "type_is_LIST _ = False"

fun as_list :: "val \<Rightarrow> val list" where
  "as_list (ListV _ xs) = xs"
| "as_list _ = []"

fun name_of :: "val \<Rightarrow> string" where
  "name_of (ListV n _) = n"
| "name_of _ = []"

subsection \<open>Exceptions\<close>

text \<open>
  An exception leaves the objects it passed through as they were at the throw, so an
  outcome carries the state in both cases.  \<open>einval\<close> is the IronBee exception of that
  name with its \<^verbatim>\<open>errinfo_what\<close> text; \<open>Assertion_failed\<close> is a failed
  \<^verbatim>\<open>assert\<close>; \<open>Singular_iterator\<close> and \<open>Past_the_end\<close> stand for the use
  of a default constructed list iterator and for reading through \<^verbatim>\<open>end()\<close>, which
  C++ leaves undefined.
\<close>

datatype error = einval string | Assertion_failed | Singular_iterator | Past_the_end

datatype 's outcome = Normal 's | Throw error 's

fun state_of :: "'s outcome \<Rightarrow> 's" where
  "state_of (Normal s) = s"
| "state_of (Throw e s) = s"

fun is_Normal :: "'s outcome \<Rightarrow> bool" where
  "is_Normal (Normal s) = True"
| "is_Normal (Throw e s) = False"

subsection \<open>NodeEvalState\<close>

record node_eval_state =
  m_value :: val
  m_finished :: bool

definition fresh_node_eval_state :: node_eval_state where
  "fresh_node_eval_state = \<lparr>m_value = Null, m_finished = False\<rparr>"

text \<open>
  Modelled from the spec: \<^verbatim>\<open>NodeEvalState::finish()\<close> (eval.cpp is not among the
  sources).  Section 4.3 gives \<^verbatim>\<open>finish\<close> as the transition running \<open>\<rightarrow>\<close> finished
  and section 3 says that a finished value never changes; functional.cpp guards each
  second \<^verbatim>\<open>finish()\<close> with \<^verbatim>\<open>if (! my_state.is_finished())\<close>.  A finished state
  therefore refuses \<^verbatim>\<open>finish\<close> with \<open>einval\<close> before anything is written.
\<close>

definition finish :: "node_eval_state \<Rightarrow> node_eval_state outcome" where
  "finish s =
     (if m_finished s then Throw (einval ''finish: already finished'') s
      else Normal (s\<lparr>m_finished := True\<rparr>))"

text \<open>
  Modelled from the spec: \<^verbatim>\<open>NodeEvalState::finish(Value)\<close>: the same transition,
  fixing the value of the node.
\<close>

definition finish_with :: "val \<Rightarrow> node_eval_state \<Rightarrow> node_eval_state outcome" where
  "finish_with v s =
     (case finish s of
        Throw e s' \<Rightarrow> Throw e s'
      | Normal s' \<Rightarrow> Normal (s'\<lparr>m_value := v\<rparr>))"

text \<open>
  Modelled from the spec: \<^verbatim>\<open>NodeEvalState::setup_local_list(mm, name, length)\<close>.
  It gives a node without a value an empty output list of the given name (section 4.3:
  \<^emph>\<open>set up a local output list named after the primary\<close>).  \<^verbatim>\<open>Each::eval_primary\<close>
  calls \<^verbatim>\<open>ready\<close> anew on each invocation while the output list goes on growing
  (section 8, scenario 2), so a node that has a value already is left alone.
\<close>

definition setup_local_list :: "string \<Rightarrow> node_eval_state \<Rightarrow> node_eval_state" where
  "setup_local_list name s =
     (if is_null (m_value s) then s\<lparr>m_value := ListV name []\<rparr> else s)"

text \<open>
  Modelled from the spec: \<^verbatim>\<open>NodeEvalState::append_to_list(Value)\<close>: appends to the
  local output list, which is the value of the node.  It needs a running node and a
  list that was set up.
\<close>

definition append_to_list :: "val \<Rightarrow> node_eval_state \<Rightarrow> node_eval_state outcome" where
  "append_to_list v s =
     (if m_finished s then Throw (einval ''append_to_list: already finished'') s
      else case m_value s of
             ListV name xs \<Rightarrow> Normal (s\<lparr>m_value := ListV name (xs @ [v])\<rparr>)
           | _ \<Rightarrow> Throw (einval ''append_to_list: no local list'') s)"

subsection \<open>Nodes and the graph evaluation state\<close>

text \<open>
  Modelled from the spec: the classes \<^verbatim>\<open>Node\<close>, \<^verbatim>\<open>Literal\<close> and
  \<^verbatim>\<open>GraphEvalState\<close> and the helper \<^verbatim>\<open>literal_value\<close> (dag.hpp, eval.hpp and
  call_helpers.hpp are not among the sources).  Section 3: a node has an ordered
  sequence of children, shared between parents, an index and a literal flag; the graph
  evaluation state is a table from node index to \<^verbatim>\<open>NodeEvalState\<close>.  Nodes are
  shared (\<^verbatim>\<open>node_p\<close> is a shared pointer) and \<^verbatim>\<open>set_index\<close> writes into them, so
  they live in a store addressed by \<open>node_p\<close>.  A node is a literal exactly when it
  holds a literal value; \<open>literal_value\<close> is applied to literal nodes only in what
  follows.  \<open>to_s\<close> is the text \<^verbatim>\<open>to_s()\<close> prints for the node.
\<close>

type_synonym node_p = nat

record node =
  children :: "node_p list"
  literal :: "val option"
  index :: nat
  to_s :: string

type_synonym store = "node_p \<Rightarrow> node"

type_synonym graph_eval_state = "nat \<Rightarrow> node_eval_state"

definition is_literal :: "store \<Rightarrow> node_p \<Rightarrow> bool" where
  "is_literal st p = (literal (st p) \<noteq> None)"

definition literal_value :: "store \<Rightarrow> node_p \<Rightarrow> val" where
  "literal_value st p = (case literal (st p) of Some v \<Rightarrow> v | None \<Rightarrow> Null)"

definition set_index :: "node_p \<Rightarrow> nat \<Rightarrow> store \<Rightarrow> store" where
  "set_index p i st = st(p := (st p)\<lparr>index := i\<rparr>)"

subsection \<open>Simple::eval\<close>

text \<open>
  The loop of \<^verbatim>\<open>Simple::eval\<close> over the children, \<open>i\<close> counting positions: a
  child at a dynamic position (\<open>i \<ge> num_static_args\<close>) that is not finished ends the
  function (\<open>None\<close>); a finished one has its value pushed onto \<open>args\<close>.
\<close>

fun Simple_collect ::
  "nat \<Rightarrow> store \<Rightarrow> graph_eval_state \<Rightarrow> node_p list \<Rightarrow> nat \<Rightarrow> val list \<Rightarrow> val list option"
where
  "Simple_collect num_static_args st ges [] i args = Some args"
| "Simple_collect num_static_args st ges (child # rest) i args =
     (if i \<ge> num_static_args then
        (if \<not> m_finished (ges (index (st child))) then None
         else Simple_collect num_static_args st ges rest (Suc i)
                (args @ [m_value (ges (index (st child)))]))
      else Simple_collect num_static_args st ges rest (Suc i) args)"

text \<open>
  \<^verbatim>\<open>Simple::eval\<close>.  \<^verbatim>\<open>value_vec_t\<close> is used as a \<^verbatim>\<open>std::vector<Value>\<close>
  (\<^verbatim>\<open>push_back\<close>, here and in \<^verbatim>\<open>prepare_call\<close>), so
  \<^verbatim>\<open>value_vec_t args(num_dynamic_args())\<close> is a vector that holds
  \<open>num_dynamic_args\<close> default constructed values before the loop begins.
\<close>

definition Simple_eval ::
  "nat \<Rightarrow> nat \<Rightarrow> (val list \<Rightarrow> val) \<Rightarrow> store \<Rightarrow> node_p \<Rightarrow> graph_eval_state
     \<Rightarrow> graph_eval_state outcome"
where
  "Simple_eval num_static_args num_dynamic_args eval_simple st me ges =
     (let n = length (children (st me)) in
      if n \<noteq> num_dynamic_args + num_static_args then Throw Assertion_failed ges
      else
        case Simple_collect num_static_args st ges (children (st me)) 0
               (replicate num_dynamic_args Null) of
          None \<Rightarrow> Normal ges
        | Some args \<Rightarrow>
            (case finish_with (eval_simple args) (ges (index (st me))) of
               Throw e s \<Rightarrow> Throw e ges
             | Normal s \<Rightarrow> Normal (ges(index (st me) := s))))"

subsection \<open>Reporting\<close>

text \<open>
  Modelled from the spec: \<^verbatim>\<open>Reporter\<close> and \<^verbatim>\<open>NodeReporter\<close> (reporter.hpp is not
  among the sources).  Section 6: a reporter collects diagnostics, counts the errors
  among them (\<^verbatim>\<open>num_errors\<close>) and writes them out (\<^verbatim>\<open>write_report\<close>); the
  evaluation core never reads what was reported before.  So a validation hook is given
  by the diagnostics it adds: \<^verbatim>\<open>Base::validate_argument(n, v, reporter)\<close> is a
  function of \<open>n\<close> and \<open>v\<close>.  The text that \<^verbatim>\<open>write_report\<close> produces is a parameter
  where it is needed.
\<close>

datatype diagnostic = Error string | Warning string | Child_count_error nat nat

fun is_error :: "diagnostic \<Rightarrow> bool" where
  "is_error (Warning _) = False"
| "is_error _ = True"

definition num_errors :: "diagnostic list \<Rightarrow> nat" where
  "num_errors ds = length (filter is_error ds)"

type_synonym validate_argument_t = "nat \<Rightarrow> val \<Rightarrow> diagnostic list"

text \<open>\<^verbatim>\<open>Base::validate_argument\<close>: nop.\<close>

definition Base_validate_argument :: validate_argument_t where
  "Base_validate_argument n v = []"

text \<open>
  A node reporter as \<^verbatim>\<open>Call::pre_transform\<close> sees it: the diagnostics so far and,
  for the statements below, the calls of \<^verbatim>\<open>validate_argument\<close> made with it
  (position and value), in order.
\<close>

record node_reporter =
  reports :: "diagnostic list"
  validate_argument_calls :: "(nat \<times> val) list"

definition call_validate_argument ::
  "validate_argument_t \<Rightarrow> nat \<Rightarrow> val \<Rightarrow> node_reporter \<Rightarrow> node_reporter"
where
  "call_validate_argument validate_argument n v rep =
     rep\<lparr>reports := reports rep @ validate_argument n v,
         validate_argument_calls := validate_argument_calls rep @ [(n, v)]\<rparr>"

text \<open>
  Modelled from the spec: \<^verbatim>\<open>Validate::n_children(reporter, n)\<close> (validate.hpp is not
  among the sources).  Section 4.1: the child count is compared with \<open>n\<close>; a different
  count is reported as an error and the answer is false.
\<close>

definition n_children :: "nat \<Rightarrow> node_p list \<Rightarrow> node_reporter \<Rightarrow> bool \<times> node_reporter" where
  "n_children n cs rep =
     (if length cs = n then (True, rep)
      else (False, rep\<lparr>reports := reports rep @ [Child_count_error n (length cs)]\<rparr>))"

subsection \<open>Call::pre_transform\<close>

text \<open>The loop over the children, \<open>i\<close> counting positions.\<close>

fun validate_literal_children ::
  "validate_argument_t \<Rightarrow> store \<Rightarrow> node_p list \<Rightarrow> nat \<Rightarrow> node_reporter \<Rightarrow> node_reporter"
where
  "validate_literal_children validate_argument st [] i rep = rep"
| "validate_literal_children validate_argument st (child # rest) i rep =
     validate_literal_children validate_argument st rest (Suc i)
       (if is_literal st child
        then call_validate_argument validate_argument i (literal_value st child) rep
        else rep)"

text \<open>
  \<^verbatim>\<open>Call::pre_transform\<close>.  \<open>parent_pre_transform\<close> is
  \<^verbatim>\<open>Predicate::Call::pre_transform\<close> of the parent class, which is not among the
  sources.
\<close>

definition Call_pre_transform ::
  "(node_reporter \<Rightarrow> node_reporter) \<Rightarrow> validate_argument_t \<Rightarrow> nat \<Rightarrow> nat \<Rightarrow> store \<Rightarrow> node_p
     \<Rightarrow> node_reporter \<Rightarrow> node_reporter"
where
  "Call_pre_transform parent_pre_transform validate_argument num_static_args num_dynamic_args
       st me reporter =
     (case n_children (num_static_args + num_dynamic_args) (children (st me))
             (parent_pre_transform reporter) of
        (okay, rep) \<Rightarrow>
          if \<not> okay then rep
          else validate_literal_children validate_argument st (children (st me)) 0 rep)"

subsection \<open>Call::transform\<close>

text \<open>
  \<^verbatim>\<open>Call::transform\<close> works through collaborators that are not among the sources:
  it makes a \<^verbatim>\<open>GraphEvalState\<close> of a given size, has it initialize and evaluate
  nodes, has the functional prepare itself, and replaces a node in the
  \<^verbatim>\<open>MergeGraph\<close> or hands over to \<^verbatim>\<open>Base::transform\<close>.  These calls are the
  events of a fold.  \<open>Initialize p b\<close> is \<^verbatim>\<open>ges.initialize(p, context)\<close>, with \<open>b\<close>
  false for the empty \<^verbatim>\<open>EvalContext()\<close> and true for the context that holds the
  scratch pool; \<open>Replace p v\<close> is \<^verbatim>\<open>merge_graph.replace(p, new Literal(mpl, v))\<close>,
  the literal taking the pool \<^verbatim>\<open>mpl\<close> with it.
\<close>

datatype fold_event =
    New_GraphEvalState nat
  | Initialize node_p bool
  | Prepare "val list"
  | Eval node_p
  | Replace node_p val
  | Base_transform node_p

text \<open>The second loop: \<^verbatim>\<open>arg->set_index(index); ++index\<close>; it gives the nodes and
  the \<^verbatim>\<open>index\<close> it ends with.\<close>

fun set_indices :: "node_p list \<Rightarrow> nat \<Rightarrow> store \<Rightarrow> store \<times> nat" where
  "set_indices [] i st = (st, i)"
| "set_indices (arg # rest) i st = set_indices rest (Suc i) (set_index arg i st)"

text \<open>
  The third loop, with the set \<^verbatim>\<open>initialized\<close> of the nodes initialized so far and
  the events so far.
\<close>

fun initialize_args ::
  "store \<Rightarrow> node_p list \<Rightarrow> node_p set \<Rightarrow> fold_event list \<Rightarrow> error + fold_event list"
where
  "initialize_args st [] initialized evs = Inr evs"
| "initialize_args st (arg # rest) initialized evs =
     (if \<not> is_literal st arg then Inl Assertion_failed
      else if arg \<notin> initialized
      then initialize_args st rest (insert arg initialized) (evs @ [Initialize arg False])
      else initialize_args st rest initialized evs)"

text \<open>
  \<^verbatim>\<open>prepare_call\<close>: the values of the first \<open>num_static_args\<close> children.  The loop
  counts to \<open>num_static_args\<close> and does not look for the end of the list.
\<close>

fun static_args_of :: "store \<Rightarrow> nat \<Rightarrow> node_p list \<Rightarrow> val list option" where
  "static_args_of st 0 cs = Some []"
| "static_args_of st (Suc n) [] = None"
| "static_args_of st (Suc n) (c # cs) =
     map_option ((#) (literal_value st c)) (static_args_of st n cs)"

text \<open>
  \<^verbatim>\<open>Call::transform\<close>.  \<open>isolated_eval\<close> gives the state \<^verbatim>\<open>ges.final(0)\<close> of the
  node after \<^verbatim>\<open>ges.initialize(me, ...)\<close> and \<^verbatim>\<open>ges.eval(me, ...)\<close> in the new
  graph evaluation state, from the nodes as indexed and the static arguments the
  functional was prepared with; \<open>base_transform\<close> is the answer of
  \<^verbatim>\<open>Base::transform\<close> (false for \<^verbatim>\<open>Base\<close> itself).  The result is the answer, the
  nodes with their new indices, and the events in order.
\<close>

definition Call_transform ::
  "nat \<Rightarrow> (store \<Rightarrow> node_p \<Rightarrow> val list \<Rightarrow> node_eval_state) \<Rightarrow> (store \<Rightarrow> node_p \<Rightarrow> bool)
     \<Rightarrow> store \<Rightarrow> node_p \<Rightarrow> error + (bool \<times> store \<times> fold_event list)"
where
  "Call_transform num_static_args isolated_eval base_transform st me =
     (if \<not> list_all (is_literal st) (children (st me))
      then Inr (base_transform st me, st, [Base_transform me])
      else
        case set_indices (children (st me)) 1 (set_index me 0 st) of
          (st', next_index) \<Rightarrow>
            (case initialize_args st' (children (st' me)) {} [New_GraphEvalState next_index] of
               Inl e \<Rightarrow> Inl e
             | Inr evs \<Rightarrow>
                 (case static_args_of st' num_static_args (children (st' me)) of
                    None \<Rightarrow> Inl Past_the_end
                  | Some static_args \<Rightarrow>
                      (let my_state = isolated_eval st' me static_args;
                           evs' = evs @ [Prepare static_args, Initialize me True, Eval me]
                       in if m_finished my_state
                          then Inr (True, st', evs' @ [Replace me (m_value my_state)])
                          else Inr (base_transform st' me, st', evs' @ [Base_transform me])))))"

subsection \<open>Call::eval_initialize and Call::eval_calculate\<close>

text \<open>\<^verbatim>\<open>%d\<close> of \<^verbatim>\<open>boost::format\<close> on a \<^verbatim>\<open>size_t\<close>: the decimal digits.\<close>

fun string_of_nat :: "nat \<Rightarrow> string" where
  "string_of_nat n =
     (if n < 10 then [''0123456789'' ! n]
      else string_of_nat (n div 10) @ [''0123456789'' ! (n mod 10)])"

text \<open>
  The text of the exception of \<^verbatim>\<open>validate_args\<close>:
  \<^verbatim>\<open>"Argument validation failed: n=%d report=%s arg=%s"\<close>.
\<close>

definition validation_failure_text :: "nat \<Rightarrow> string \<Rightarrow> string \<Rightarrow> string" where
  "validation_failure_text n report arg =
     ''Argument validation failed: n='' @ string_of_nat n @
     '' report='' @ report @ '' arg='' @ arg"

text \<open>
  \<^verbatim>\<open>call_state_t\<close> sits in the \<^verbatim>\<open>state()\<close> of the node's own
  \<^verbatim>\<open>NodeEvalState\<close>; a call frame holds it next to the graph evaluation state.
\<close>

record 'ss call_frame =
  graph_state :: graph_eval_state
  unfinished :: "(node_p \<times> nat) list"
  substate :: 'ss

text \<open>The loop of \<^verbatim>\<open>Call::eval_initialize\<close>: the children that are not literal.\<close>

fun unfinished_args :: "store \<Rightarrow> node_p list \<Rightarrow> nat \<Rightarrow> (node_p \<times> nat) list" where
  "unfinished_args st [] i = []"
| "unfinished_args st (child # rest) i =
     (if \<not> is_literal st child then (child, i) # unfinished_args st rest (Suc i)
      else unfinished_args st rest (Suc i))"

text \<open>
  \<^verbatim>\<open>Call::eval_initialize\<close>.  \<open>parent_eval_initialize\<close> is
  \<^verbatim>\<open>Predicate::Call::eval_initialize\<close> (not among the sources); \<open>base_eval_initialize\<close>
  is \<^verbatim>\<open>Base::eval_initialize\<close> of the functional, given the empty \<^verbatim>\<open>boost::any\<close>.
\<close>

definition Call_eval_initialize ::
  "(graph_eval_state \<Rightarrow> graph_eval_state) \<Rightarrow> ('ss \<Rightarrow> graph_eval_state \<Rightarrow> 'ss \<times> graph_eval_state)
     \<Rightarrow> 'ss \<Rightarrow> store \<Rightarrow> node_p \<Rightarrow> graph_eval_state \<Rightarrow> 'ss call_frame"
where
  "Call_eval_initialize parent_eval_initialize base_eval_initialize empty_any st me g =
     (case base_eval_initialize empty_any (parent_eval_initialize g) of
        (sub, g') \<Rightarrow>
          \<lparr>graph_state = g', unfinished = unfinished_args st (children (st me)) 0, substate = sub\<rparr>)"

text \<open>
  \<^verbatim>\<open>validate_args\<close>: the list of pending arguments is walked once.  A pending
  argument that is finished is validated with a reporter of its own; errors throw, and
  no errors take the argument off the list.  The outcome carries the list as the loop
  left it.
\<close>

fun validate_args ::
  "validate_argument_t \<Rightarrow> (node_p \<Rightarrow> diagnostic list \<Rightarrow> string) \<Rightarrow> store \<Rightarrow> graph_eval_state
     \<Rightarrow> (node_p \<times> nat) list \<Rightarrow> (node_p \<times> nat) list outcome"
where
  "validate_args validate_argument write_report st g [] = Normal []"
| "validate_args validate_argument write_report st g ((p, n) # rest) =
     (if m_finished (g (index (st p))) then
        (let reporter = validate_argument n (m_value (g (index (st p)))) in
         if num_errors reporter > 0 then
           Throw (einval (validation_failure_text n (write_report p reporter) (to_s (st p))))
             ((p, n) # rest)
         else validate_args validate_argument write_report st g rest)
      else
        (case validate_args validate_argument write_report st g rest of
           Normal rest' \<Rightarrow> Normal ((p, n) # rest')
         | Throw e rest' \<Rightarrow> Throw e ((p, n) # rest')))"


text \<open>
  A pending argument fails validation when it is finished and
  \<^verbatim>\<open>validate_argument\<close> reports at least one error for its value.
\<close>

definition fails_validation ::
  "validate_argument_t \<Rightarrow> store \<Rightarrow> graph_eval_state \<Rightarrow> node_p \<times> nat \<Rightarrow> bool"
where
  "fails_validation validate_argument st g =
     (\<lambda>(p, n). m_finished (g (index (st p))) \<and>
        0 < num_errors (validate_argument n (m_value (g (index (st p))))))"

subsection \<open>Each: the frame of one node\<close>

text \<open>
  The calls of the virtual hooks \<^verbatim>\<open>ready\<close> and \<^verbatim>\<open>eval_each\<close> that
  \<^verbatim>\<open>Each::eval_primary\<close> makes, with the primary value and the subvalue passed.
\<close>

datatype hook_call = Ready_call val | Each_call val val

text \<open>
  What \<^verbatim>\<open>Each::eval_primary\<close> reads and writes: the node's own
  \<^verbatim>\<open>NodeEvalState\<close>, the fields of \<^verbatim>\<open>each_state_t\<close>, and (for the statements
  below) the hook calls made so far.  The primary list only grows at its end, so the
  list iterator \<^verbatim>\<open>last_subvalue\<close> is a position in it; \<open>None\<close> is the default
  constructed iterator.
\<close>

record 'ss each_frame =
  my_state :: node_eval_state
  initialized :: bool
  last_subvalue :: "nat option"
  subsubstate :: 'ss
  hook_calls :: "hook_call list"

text \<open>
  \<^verbatim>\<open>Each::eval_initialize\<close>: a new \<^verbatim>\<open>each_state_t\<close>, its \<^verbatim>\<open>subsubstate\<close>
  as \<^verbatim>\<open>eval_initialize_each\<close> left it, beside the node's new \<^verbatim>\<open>NodeEvalState\<close>.
\<close>

definition Each_eval_initialize :: "'ss \<Rightarrow> 'ss each_frame" where
  "Each_eval_initialize sub =
     \<lparr>my_state = fresh_node_eval_state, initialized = False, last_subvalue = None,
      subsubstate = sub, hook_calls = []\<rparr>"

text \<open>
  The hooks take the secondary arguments, the primary value (and the subvalue), and act
  on \<^verbatim>\<open>my_state\<close> and the \<^verbatim>\<open>subsubstate\<close>.
\<close>

type_synonym 'ss ready_t =
  "val list \<Rightarrow> val \<Rightarrow> node_eval_state \<times> 'ss \<Rightarrow> (node_eval_state \<times> 'ss) outcome"

type_synonym 'ss eval_each_t =
  "val list \<Rightarrow> val \<Rightarrow> val \<Rightarrow> node_eval_state \<times> 'ss \<Rightarrow> (node_eval_state \<times> 'ss) outcome"

definition after_hook ::
  "hook_call \<Rightarrow> 'ss each_frame \<Rightarrow> (node_eval_state \<times> 'ss) outcome \<Rightarrow> 'ss each_frame outcome"
where
  "after_hook c fr r =
     (case r of
        Normal (s, ss) \<Rightarrow>
          Normal (fr\<lparr>my_state := s, subsubstate := ss, hook_calls := hook_calls fr @ [c]\<rparr>)
      | Throw e (s, ss) \<Rightarrow>
          Throw e (fr\<lparr>my_state := s, subsubstate := ss, hook_calls := hook_calls fr @ [c]\<rparr>))"

definition call_ready ::
  "'ss ready_t \<Rightarrow> val list \<Rightarrow> val \<Rightarrow> 'ss each_frame \<Rightarrow> 'ss each_frame outcome"
where
  "call_ready ready secondary_args primary_value fr =
     after_hook (Ready_call primary_value) fr
       (ready secondary_args primary_value (my_state fr, subsubstate fr))"

definition call_eval_each ::
  "'ss eval_each_t \<Rightarrow> val list \<Rightarrow> val \<Rightarrow> val \<Rightarrow> 'ss each_frame \<Rightarrow> 'ss each_frame outcome"
where
  "call_eval_each eval_each secondary_args primary_value subvalue fr =
     after_hook (Each_call primary_value subvalue) fr
       (eval_each secondary_args primary_value subvalue (my_state fr, subsubstate fr))"

text \<open>A method of \<^verbatim>\<open>NodeEvalState\<close> applied to \<^verbatim>\<open>my_state\<close>.\<close>

definition on_my_state ::
  "(node_eval_state \<Rightarrow> node_eval_state outcome) \<Rightarrow> 'ss each_frame \<Rightarrow> 'ss each_frame outcome"
where
  "on_my_state f fr =
     (case f (my_state fr) of
        Normal s \<Rightarrow> Normal (fr\<lparr>my_state := s\<rparr>)
      | Throw e s \<Rightarrow> Throw e (fr\<lparr>my_state := s\<rparr>))"

subsection \<open>Each::eval_primary\<close>

text \<open>
  The \<^verbatim>\<open>while\<close> loop, \<open>i\<close> the position of \<^verbatim>\<open>subvalue_iter\<close> and the list what
  lies from there to \<^verbatim>\<open>end()\<close>.  It is left by the end of the list, by
  \<^verbatim>\<open>return\<close> once the node is finished, or by an exception of the hook.
\<close>

datatype 's loop_exit = Exhausted 's | Returned 's | Thrown error 's

fun exit_state :: "'s loop_exit \<Rightarrow> 's" where
  "exit_state (Exhausted s) = s"
| "exit_state (Returned s) = s"
| "exit_state (Thrown e s) = s"

fun each_loop ::
  "'ss eval_each_t \<Rightarrow> val list \<Rightarrow> val \<Rightarrow> val list \<Rightarrow> nat \<Rightarrow> 'ss each_frame
     \<Rightarrow> 'ss each_frame loop_exit"
where
  "each_loop eval_each secondary_args primary_value [] i fr = Exhausted fr"
| "each_loop eval_each secondary_args primary_value (subvalue # rest) i fr =
     (case call_eval_each eval_each secondary_args primary_value subvalue fr of
        Throw e fr' \<Rightarrow> Thrown e fr'
      | Normal fr' \<Rightarrow>
          if m_finished (my_state fr') then Returned fr'
          else each_loop eval_each secondary_args primary_value rest (Suc i)
                 (fr'\<lparr>last_subvalue := Some i\<rparr>))"

text \<open>The loop from position \<open>i\<close> on, and the lines after it.\<close>

definition each_from ::
  "'ss eval_each_t \<Rightarrow> val list \<Rightarrow> node_eval_state \<Rightarrow> nat \<Rightarrow> 'ss each_frame
     \<Rightarrow> 'ss each_frame outcome"
where
  "each_from eval_each secondary_args primary_arg i fr =
     (case each_loop eval_each secondary_args (m_value primary_arg)
             (drop i (as_list (m_value primary_arg))) i fr of
        Thrown e fr' \<Rightarrow> Throw e fr'
      | Returned fr' \<Rightarrow> Normal fr'
      | Exhausted fr' \<Rightarrow>
          if m_finished primary_arg then
            (if \<not> m_finished (my_state fr') then on_my_state finish fr' else Normal fr')
          else Normal fr')"

text \<open>
  \<^verbatim>\<open>Each::eval_primary\<close>; \<open>primary_arg\<close> is the \<^verbatim>\<open>NodeEvalState\<close> of the primary
  argument.
\<close>

definition Each_eval_primary ::
  "'ss ready_t \<Rightarrow> 'ss eval_each_t \<Rightarrow> val list \<Rightarrow> node_eval_state \<Rightarrow> 'ss each_frame
     \<Rightarrow> 'ss each_frame outcome"
where
  "Each_eval_primary ready eval_each secondary_args primary_arg fr =
     (let primary_value = m_value primary_arg in
      if is_null primary_value then
        (if m_finished primary_arg then on_my_state (finish_with primary_value) fr
         else Normal fr)
      else if \<not> type_is_LIST primary_value then
        (case call_ready ready secondary_args primary_value fr of
           Throw e fr1 \<Rightarrow> Throw e fr1
         | Normal fr1 \<Rightarrow>
             (case call_eval_each eval_each secondary_args primary_value primary_value fr1 of
                Throw e fr2 \<Rightarrow> Throw e fr2
              | Normal fr2 \<Rightarrow>
                  if \<not> m_finished (my_state fr2) then on_my_state finish fr2
                  else Normal fr2))
      else
        (case call_ready ready secondary_args primary_value fr of
           Throw e fr1 \<Rightarrow> Throw e fr1
         | Normal fr1 \<Rightarrow>
             if as_list primary_value = [] then
               (if m_finished primary_arg \<and> \<not> m_finished (my_state fr1)
                then on_my_state finish fr1
                else Normal fr1)
             else if m_finished (my_state fr1) then Normal fr1
             else if \<not> initialized fr1 then
               each_from eval_each secondary_args primary_arg 0 (fr1\<lparr>initialized := True\<rparr>)
             else
               (case last_subvalue fr1 of
                  None \<Rightarrow> Throw Singular_iterator fr1
                | Some j \<Rightarrow> each_from eval_each secondary_args primary_arg (Suc j) fr1)))"

text \<open>
  The evaluator calls \<^verbatim>\<open>eval_primary\<close> again whenever the primary argument has new
  data: a run is a sequence of such calls, one for each state of the primary argument
  in the list, and ends with the first exception.
\<close>

fun Each_run ::
  "'ss ready_t \<Rightarrow> 'ss eval_each_t \<Rightarrow> val list \<Rightarrow> node_eval_state list \<Rightarrow> 'ss each_frame
     \<Rightarrow> 'ss each_frame outcome"
where
  "Each_run ready eval_each secondary_args [] fr = Normal fr"
| "Each_run ready eval_each secondary_args (primary_arg # later) fr =
     (case Each_eval_primary ready eval_each secondary_args primary_arg fr of
        Throw e fr' \<Rightarrow> Throw e fr'
      | Normal fr' \<Rightarrow> Each_run ready eval_each secondary_args later fr')"

text \<open>The subvalues passed to \<^verbatim>\<open>eval_each\<close>, in the order of the calls.\<close>

fun subvalues :: "hook_call list \<Rightarrow> val list" where
  "subvalues [] = []"
| "subvalues (Ready_call pv # cs) = subvalues cs"
| "subvalues (Each_call pv sv # cs) = sv # subvalues cs"

definition delivered :: "'ss each_frame \<Rightarrow> val list" where
  "delivered fr = subvalues (hook_calls fr)"

text \<open>How far the cursor has come: the number of list elements it has passed.\<close>

definition cursor :: "'ss each_frame \<Rightarrow> nat" where
  "cursor fr = (case last_subvalue fr of None \<Rightarrow> 0 | Some j \<Rightarrow> Suc j)"

subsection \<open>The hooks of Each, Map, Filter and Selector\<close>

definition with_substate :: "'ss \<Rightarrow> node_eval_state outcome \<Rightarrow> (node_eval_state \<times> 'ss) outcome" where
  "with_substate ss r =
     (case r of Normal s \<Rightarrow> Normal (s, ss) | Throw e s \<Rightarrow> Throw e (s, ss))"

text \<open>\<^verbatim>\<open>Each::ready\<close>: nop.\<close>

definition Each_ready :: "'ss ready_t" where
  "Each_ready secondary_args primary_value = (\<lambda>(s, ss). Normal (s, ss))"

text \<open>\<^verbatim>\<open>Map::ready\<close>, and \<^verbatim>\<open>Filter::ready\<close> with the same body.\<close>

definition Map_ready :: "'ss ready_t" where
  "Map_ready secondary_args primary_value =
     (\<lambda>(s, ss).
        if type_is_LIST primary_value
        then Normal (setup_local_list (name_of primary_value) s, ss)
        else Normal (s, ss))"

definition Filter_ready :: "'ss ready_t" where
  "Filter_ready secondary_args primary_value =
     (\<lambda>(s, ss).
        if type_is_LIST primary_value
        then Normal (setup_local_list (name_of primary_value) s, ss)
        else Normal (s, ss))"

text \<open>
  \<^verbatim>\<open>Map::eval_each\<close>.  \<open>eval_map\<close> takes the secondary arguments, the state of the
  functional and the subvalue, and gives the mapped value and the new state.
\<close>

definition Map_eval_each ::
  "(val list \<Rightarrow> 'ss \<Rightarrow> val \<Rightarrow> val \<times> 'ss) \<Rightarrow> 'ss eval_each_t"
where
  "Map_eval_each eval_map secondary_args primary_value subvalue =
     (\<lambda>(s, ss).
        if \<not> type_is_LIST primary_value then
          (if primary_value \<noteq> subvalue then Throw Assertion_failed (s, ss)
           else case eval_map secondary_args ss subvalue of
                  (v, ss') \<Rightarrow> with_substate ss' (finish_with v s))
        else
          (case eval_map secondary_args ss subvalue of
             (v, ss') \<Rightarrow> with_substate ss' (append_to_list v s)))"

text \<open>
  \<^verbatim>\<open>Filter::eval_each\<close>.  \<open>eval_filter\<close> gives \<^verbatim>\<open>pass\<close>, \<^verbatim>\<open>early_finish\<close>
  and the new state of the functional.
\<close>

definition Filter_eval_each ::
  "(val list \<Rightarrow> 'ss \<Rightarrow> val \<Rightarrow> bool \<times> bool \<times> 'ss) \<Rightarrow> 'ss eval_each_t"
where
  "Filter_eval_each eval_filter secondary_args primary_value subvalue =
     (\<lambda>(s, ss).
        if \<not> type_is_LIST primary_value then
          (if primary_value \<noteq> subvalue then Throw Assertion_failed (s, ss)
           else case eval_filter secondary_args ss subvalue of
                  (pass, early_finish, ss') \<Rightarrow>
                    if pass then with_substate ss' (finish_with subvalue s)
                    else with_substate ss' (finish s))
        else
          (case eval_filter secondary_args ss subvalue of
             (pass, early_finish, ss') \<Rightarrow>
               (case (if pass then append_to_list subvalue s else Normal s) of
                  Throw e s' \<Rightarrow> Throw e (s', ss')
                | Normal s' \<Rightarrow>
                    if early_finish then with_substate ss' (finish s')
                    else Normal (s', ss'))))"

text \<open>
  \<^verbatim>\<open>Selector::eval_each\<close>.  \<open>eval_selector\<close> gives \<^verbatim>\<open>pass\<close> and the new state
  of the functional.  \<^verbatim>\<open>Selector\<close> keeps \<^verbatim>\<open>Each::ready\<close>.
\<close>

definition Selector_eval_each ::
  "(val list \<Rightarrow> 'ss \<Rightarrow> val \<Rightarrow> bool \<times> 'ss) \<Rightarrow> 'ss eval_each_t"
where
  "Selector_eval_each eval_selector secondary_args primary_value subvalue =
     (\<lambda>(s, ss).
        case eval_selector secondary_args ss subvalue of
          (pass, ss') \<Rightarrow>
            if pass then with_substate ss' (finish_with subvalue s)
            else Normal (s, ss'))"

subsection \<open>Conditions used in the statements\<close>

text \<open>
  A hook lets finished nodes stay finished when, called on a finished
  \<^verbatim>\<open>my_state\<close>, it leaves the flag set, whether it returns or throws.
\<close>

definition stays_finished ::
  "(node_eval_state \<times> 'ss \<Rightarrow> (node_eval_state \<times> 'ss) outcome) \<Rightarrow> bool"
where
  "stays_finished hook \<longleftrightarrow>
     (\<forall>s ss. m_finished s \<longrightarrow> m_finished (fst (state_of (hook (s, ss)))))"


text \<open>
  The states of a primary argument over a run, when its value is a list that only
  grows at its end: \<open>grows xs ps\<close> says so for the states \<open>ps\<close> that follow a list
  \<open>xs\<close>.  \<open>final_list\<close> is the list at the end of the run.
\<close>

fun grows :: "val list \<Rightarrow> node_eval_state list \<Rightarrow> bool" where
  "grows xs [] = True"
| "grows xs (p # ps) =
     (type_is_LIST (m_value p) \<and> prefix xs (as_list (m_value p)) \<and>
      grows (as_list (m_value p)) ps)"

fun final_list :: "val list \<Rightarrow> node_eval_state list \<Rightarrow> val list" where
  "final_list xs [] = xs"
| "final_list xs (p # ps) = final_list (as_list (m_value p)) ps"

text \<open>
  What holds of a frame between the calls of a run over a list \<open>xs\<close>: the subvalues
  delivered are a prefix of the list; and while the node runs, the cursor stands at
  the last element delivered.
\<close>

definition cursor_inv :: "val list \<Rightarrow> 'ss each_frame \<Rightarrow> bool" where
  "cursor_inv xs fr \<longleftrightarrow>
     prefix (delivered fr) xs \<and>
     (\<not> initialized fr \<longrightarrow> last_subvalue fr = None) \<and>
     (\<not> m_finished (my_state fr) \<longrightarrow>
        delivered fr = take (cursor fr) xs \<and> cursor fr \<le> length xs \<and>
        (initialized fr \<longrightarrow> last_subvalue fr \<noteq> None))"

text \<open>
  A hook leaves running nodes running when, called on a \<^verbatim>\<open>my_state\<close> that is not
  finished, it does not finish it, whether it returns or throws.  \<^verbatim>\<open>Each::ready\<close>,
  \<^verbatim>\<open>Map::ready\<close> and \<^verbatim>\<open>Filter::ready\<close> do; so does \<^verbatim>\<open>Map::eval_each\<close>
  on a list.
\<close>

definition leaves_running ::
  "(node_eval_state \<times> 'ss \<Rightarrow> (node_eval_state \<times> 'ss) outcome) \<Rightarrow> bool"
where
  "leaves_running hook \<longleftrightarrow>
     (\<forall>s ss. \<not> m_finished s \<longrightarrow> \<not> m_finished (fst (state_of (hook (s, ss)))))"

text \<open>
  The list of a primary argument that is finished is closed: in the states that
  follow a finished one, the list is the same.
\<close>

fun closed_stays :: "node_eval_state list \<Rightarrow> bool" where
  "closed_stays [] = True"
| "closed_stays (p # ps) =
     ((m_finished p \<longrightarrow> list_all (\<lambda>q. as_list (m_value q) = as_list (m_value p)) ps) \<and>
      closed_stays ps)"

text \<open>
  The node was finished early, by \<^verbatim>\<open>eval_each\<close>: the loop of \<^verbatim>\<open>eval_primary\<close>
  returns at the subvalue it has just passed to \<^verbatim>\<open>eval_each\<close>, before it moves
  \<^verbatim>\<open>last_subvalue\<close> to it (lines 578 to 581), so the cursor is behind the subvalues
  delivered.  When \<^verbatim>\<open>eval_primary\<close> finishes the node itself, after the loop or on
  the empty list, the cursor has passed all that was delivered.
\<close>

definition finished_early :: "'ss each_frame \<Rightarrow> bool" where
  "finished_early fr \<longleftrightarrow> m_finished (my_state fr) \<and> cursor fr < length (delivered fr)"

text \<open>
  \<^verbatim>\<open>eval_each\<close> can finish a node at the subvalue \<open>sv\<close> of a list: called with
  it on some \<^verbatim>\<open>my_state\<close> that is not finished, it leaves the node finished.
\<close>

definition finishes_at :: "'ss eval_each_t \<Rightarrow> val list \<Rightarrow> val \<Rightarrow> bool" where
  "finishes_at eval_each secondary_args sv \<longleftrightarrow>
     (\<exists>pv s ss. type_is_LIST pv \<and> \<not> m_finished s \<and>
        m_finished (fst (state_of (eval_each secondary_args pv sv (s, ss)))))"

subsection \<open>Selector and Filter, in the words of the spec\<close>

text \<open>
  Section 4.3 on \<^verbatim>\<open>Selector\<close>: the node finishes with the first subvalue for
  which \<^verbatim>\<open>eval_selector\<close> returns true, and subvalues after it are not
  evaluated.  \<open>select_first\<close> asks the elements of a list in order, passing the state
  of the functional along, and stops at the first that passes: it gives the elements
  asked, the one found and the state.
\<close>

fun select_first ::
  "(val list \<Rightarrow> 'ss \<Rightarrow> val \<Rightarrow> bool \<times> 'ss) \<Rightarrow> val list \<Rightarrow> 'ss \<Rightarrow> val list
     \<Rightarrow> val list \<times> val option \<times> 'ss"
where
  "select_first eval_selector secondary_args ss [] = ([], None, ss)"
| "select_first eval_selector secondary_args ss (x # xs) =
     (case eval_selector secondary_args ss x of
        (pass, ss') \<Rightarrow>
          if pass then ([x], Some x, ss')
          else (case select_first eval_selector secondary_args ss' xs of
                  (asked, found, ss'') \<Rightarrow> (x # asked, found, ss'')))"

text \<open>
  Section 4.3 on \<^verbatim>\<open>Filter\<close>: passing subvalues are appended to the output list,
  and \<^verbatim>\<open>early_finish\<close> ends the node at once.  \<open>filter_until\<close> asks the elements
  of a list in order up to and with the first one for which \<^verbatim>\<open>early_finish\<close> is set:
  it gives the elements asked, those of them that passed, whether \<^verbatim>\<open>early_finish\<close>
  was set, and the state.
\<close>

fun filter_until ::
  "(val list \<Rightarrow> 'ss \<Rightarrow> val \<Rightarrow> bool \<times> bool \<times> 'ss) \<Rightarrow> val list \<Rightarrow> 'ss \<Rightarrow> val list
     \<Rightarrow> val list \<times> val list \<times> bool \<times> 'ss"
where
  "filter_until eval_filter secondary_args ss [] = ([], [], False, ss)"
| "filter_until eval_filter secondary_args ss (x # xs) =
     (case eval_filter secondary_args ss x of
        (pass, early_finish, ss') \<Rightarrow>
          if early_finish then ([x], (if pass then [x] else []), True, ss')
          else (case filter_until eval_filter secondary_args ss' xs of
                  (asked, passed, early, ss'') \<Rightarrow>
                    (x # asked, (if pass then x # passed else passed), early, ss'')))"

subsection \<open>Example inputs\<close>

text \<open>A call node 0 with the single child 1, which is finished with the value 7.\<close>

definition one_child_store :: store where
  "one_child_store =
     (\<lambda>p. \<lparr>children = (if p = 0 then [1] else []), literal = None, index = p, to_s = []\<rparr>)"

definition child_finished_7 :: graph_eval_state where
  "child_finished_7 =
     (\<lambda>i. if i = 1 then \<lparr>m_value = Number 7, m_finished = True\<rparr> else fresh_node_eval_state)"






text \<open>
  A primary list that arrives in two steps, first \<open>[1]\<close> and then, finished,
  \<open>[1, 2, 3]\<close>; and a map that doubles numbers.
\<close>

definition list_1 :: node_eval_state where
  "list_1 = \<lparr>m_value = ListV ''xs'' [Number 1], m_finished = False\<rparr>"

definition list_1_2_3 :: node_eval_state where
  "list_1_2_3 = \<lparr>m_value = ListV ''xs'' [Number 1, Number 2, Number 3], m_finished = True\<rparr>"

definition doubles :: "val list \<Rightarrow> unit \<Rightarrow> val \<Rightarrow> val \<times> unit" where
  "doubles secondary_args ss v = (case v of Number n \<Rightarrow> (Number (2 * n), ()) | _ \<Rightarrow> (Null, ()))"

text \<open>
  The selector \<^emph>\<open>value > 4\<close>; its state is the list of the subvalues it was asked
  about.  The primary list \<open>[2, 5, 8]\<close>, not finished.
\<close>

definition above_4 :: "val list \<Rightarrow> val list \<Rightarrow> val \<Rightarrow> bool \<times> val list" where
  "above_4 secondary_args asked v =
     (case v of Number n \<Rightarrow> (4 < n, asked @ [v]) | _ \<Rightarrow> (False, asked @ [v]))"

definition list_2_5_8 :: node_eval_state where
  "list_2_5_8 = \<lparr>m_value = ListV ''xs'' [Number 2, Number 5, Number 8], m_finished = False\<rparr>"

text \<open>
  A filter that passes odd numbers and sets \<^verbatim>\<open>early_finish\<close> at the first number
  above 2; its state is the list of the subvalues it was asked about.  The primary list
  \<open>[1, 2, 3, 4]\<close>, not finished.
\<close>

definition odd_until_above_2 :: "val list \<Rightarrow> val list \<Rightarrow> val \<Rightarrow> bool \<times> bool \<times> val list" where
  "odd_until_above_2 secondary_args asked v =
     (case v of Number n \<Rightarrow> (odd n, 2 < n, asked @ [v]) | _ \<Rightarrow> (False, False, asked @ [v]))"

definition list_1_2_3_4 :: node_eval_state where
  "list_1_2_3_4 =
     \<lparr>m_value = ListV ''xs'' [Number 1, Number 2, Number 3, Number 4], m_finished = False\<rparr>"



text \<open>
  A call node 0 over the literals 5 and 3 (nodes 1 and 2), with no static argument,
  whose evaluation in isolation finishes with 8.
\<close>

definition sum_store :: store where
  "sum_store =
     (\<lambda>p. \<lparr>children = (if p = 0 then [1, 2] else []),
           literal = (if p = 1 then Some (Number 5) else if p = 2 then Some (Number 3) else None),
           index = 7, to_s = []\<rparr>)"

definition finishes_with_8 :: "store \<Rightarrow> node_p \<Rightarrow> val list \<Rightarrow> node_eval_state" where
  "finishes_with_8 st me static_args = \<lparr>m_value = Number 8, m_finished = True\<rparr>"


subsection \<open>Simple::eval: what reaches eval_simple\<close>

lemma Simple_collect_static:
  "i + length cs \<le> ns \<Longrightarrow> Simple_collect ns st ges cs i args = Some args"
  by (induction cs arbitrary: i args) auto

lemma Simple_collect_dynamic:
  "ns \<le> i \<Longrightarrow>
   Simple_collect ns st ges cs i args =
     (if \<forall>c \<in> set cs. m_finished (ges (index (st c)))
      then Some (args @ map (\<lambda>c. m_value (ges (index (st c)))) cs)
      else None)"
  by (induction cs arbitrary: i args) auto

lemma Simple_collect_split:
  "i + length cs1 = ns \<Longrightarrow>
   Simple_collect ns st ges (cs1 @ cs2) i args = Simple_collect ns st ges cs2 ns args"
  by (induction cs1 arbitrary: i args) auto

lemma Simple_collect_eq:
  "Simple_collect ns st ges cs 0 args =
     (if \<forall>c \<in> set (drop ns cs). m_finished (ges (index (st c)))
      then Some (args @ map (\<lambda>c. m_value (ges (index (st c)))) (drop ns cs))
      else None)"
proof (cases "ns \<le> length cs")
  case True
  have "Simple_collect ns st ges (take ns cs @ drop ns cs) 0 args =
        Simple_collect ns st ges (drop ns cs) ns args"
    using True by (intro Simple_collect_split) simp
  then show ?thesis
    by (simp add: Simple_collect_dynamic)
next
  case False
  then show ?thesis
    by (simp add: Simple_collect_static)
qed

lemma Simple_eval_passes_padded_args:
  assumes "length (children (st me)) = nd + ns"
    and "\<forall>c \<in> set (drop ns (children (st me))). m_finished (ges (index (st c)))"
    and "\<not> m_finished (ges (index (st me)))"
  shows "Simple_eval ns nd eval_simple st me ges =
           Normal (ges(index (st me) :=
             (ges (index (st me)))
               \<lparr>m_finished := True,
                m_value := eval_simple (replicate nd Null @
                  map (\<lambda>c. m_value (ges (index (st c)))) (drop ns (children (st me))))\<rparr>))"
  using assms
  by (simp add: Simple_eval_def Simple_collect_eq finish_with_def finish_def)

lemma Simple_eval_waits:
  assumes "length (children (st me)) = nd + ns"
    and "\<exists>c \<in> set (drop ns (children (st me))). \<not> m_finished (ges (index (st c)))"
  shows "Simple_eval ns nd eval_simple st me ges = Normal ges"
  using assms
  by (auto simp add: Simple_eval_def Simple_collect_eq)

text \<open>
  C4.  The claim has \<^verbatim>\<open>eval_simple\<close> receive the values of the dynamic children in
  order.  The node below has no static and one dynamic argument; its only child is
  finished with the value 7.  \<^verbatim>\<open>eval_simple\<close> returns the list of the arguments it
  was given: it was given a null value first and 7 after it, since
  \<^verbatim>\<open>args(num_dynamic_args())\<close> fills the vector before \<^verbatim>\<open>push_back\<close> appends to it
  (\<^verbatim>\<open>Primary::eval\<close> and \<^verbatim>\<open>prepare_call\<close> start their vectors empty).
  \<open>Simple_eval_passes_padded_args\<close> says the same of every node whose dynamic children
  are finished; \<open>Simple_eval_waits\<close> is the other half of the claim, which holds: with
  a dynamic child that is not finished, nothing changes.
\<close>

theorem Simple_eval_null_before_argument:
  "state_of (Simple_eval 0 1 (\<lambda>args. ListV [] args) one_child_store 0 child_finished_7) 0 =
     \<lparr>m_value = ListV [] [Null, Number 7], m_finished = True\<rparr>"
  by (simp add: Simple_eval_def one_child_store_def child_finished_7_def
      fresh_node_eval_state_def finish_with_def finish_def)

subsection \<open>Call::pre_transform\<close>

lemma validate_literal_children_eq:
  "validate_literal_children va st cs i rep =
     rep\<lparr>reports := reports rep @
            concat (map (\<lambda>(k, c). va k (literal_value st c))
              (filter (\<lambda>(k, c). is_literal st c) (zip [i ..< i + length cs] cs))),
         validate_argument_calls := validate_argument_calls rep @
            map (\<lambda>(k, c). (k, literal_value st c))
              (filter (\<lambda>(k, c). is_literal st c) (zip [i ..< i + length cs] cs))\<rparr>"
proof (induction cs arbitrary: i rep)
  case Nil
  then show ?case by simp
next
  case (Cons c cs)
  have up: "[i ..< i + length (c # cs)] = i # [Suc i ..< Suc i + length cs]"
    by (subst upt_rec) simp
  show ?case
    unfolding up using Cons.IH [of "Suc i"]
    by (simp add: call_validate_argument_def)
qed

text \<open>
  C9.  \<^verbatim>\<open>Call::pre_transform\<close> on a node whose child count differs from
  \<open>num_static_args + num_dynamic_args\<close> adds one error to what the parent class
  reported and calls \<^verbatim>\<open>validate_argument\<close> for no child.  On a node with the right
  child count it calls \<^verbatim>\<open>validate_argument\<close> with position and value for each child
  that is a literal, in the order of the children, and for no other child; the
  reporter receives what these calls report.
\<close>

theorem Call_pre_transform_checks:
  "Call_pre_transform parent va ns nd st me rep =
     (if length (children (st me)) \<noteq> ns + nd
      then (parent rep)\<lparr>reports := reports (parent rep) @
              [Child_count_error (ns + nd) (length (children (st me)))]\<rparr>
      else (parent rep)\<lparr>reports := reports (parent rep) @
              concat (map (\<lambda>(k, c). va k (literal_value st c))
                (filter (\<lambda>(k, c). is_literal st c)
                   (zip [0 ..< length (children (st me))] (children (st me))))),
            validate_argument_calls := validate_argument_calls (parent rep) @
              map (\<lambda>(k, c). (k, literal_value st c))
                (filter (\<lambda>(k, c). is_literal st c)
                   (zip [0 ..< length (children (st me))] (children (st me))))\<rparr>)"
  by (simp add: Call_pre_transform_def n_children_def validate_literal_children_eq)

subsection \<open>Call::eval_calculate: arguments that fail validation\<close>

lemma unfinished_args_eq:
  "unfinished_args st cs i =
     filter (\<lambda>(c, k). \<not> is_literal st c) (zip cs [i ..< i + length cs])"
proof (induction cs arbitrary: i)
  case Nil
  then show ?case by simp
next
  case (Cons c cs)
  have up: "[i ..< i + length (c # cs)] = i # [Suc i ..< Suc i + length cs]"
    by (subst upt_rec) simp
  show ?case
    unfolding up using Cons.IH [of "Suc i"] by simp
qed


lemma validate_args_passes:
  assumes "find (fails_validation va st g) args = None"
  shows "validate_args va wr st g args =
           Normal (filter (\<lambda>(q, m). \<not> m_finished (g (index (st q)))) args)"
  using assms
proof (induction args)
  case Nil
  then show ?case by simp
next
  case (Cons a args)
  obtain q m where a: "a = (q, m)" by (cases a)
  from Cons show ?case
    by (auto simp add: a fails_validation_def Let_def split: if_splits)
qed



subsection \<open>Each::eval_primary: the loop over the primary list\<close>

lemma subvalues_append [simp]: "subvalues (cs @ ds) = subvalues cs @ subvalues ds"
  by (induction cs rule: subvalues.induct) auto

lemma after_hook_fields:
  "initialized (state_of (after_hook c fr r)) = initialized fr"
  "last_subvalue (state_of (after_hook c fr r)) = last_subvalue fr"
  "hook_calls (state_of (after_hook c fr r)) = hook_calls fr @ [c]"
  "my_state (state_of (after_hook c fr r)) = fst (state_of r)"
  "subsubstate (state_of (after_hook c fr r)) = snd (state_of r)"
  by (auto simp add: after_hook_def split: outcome.splits prod.splits)

lemma call_eval_each_fields:
  "initialized (state_of (call_eval_each e sec pv sv fr)) = initialized fr"
  "last_subvalue (state_of (call_eval_each e sec pv sv fr)) = last_subvalue fr"
  "hook_calls (state_of (call_eval_each e sec pv sv fr)) = hook_calls fr @ [Each_call pv sv]"
  "delivered (state_of (call_eval_each e sec pv sv fr)) = delivered fr @ [sv]"
  "cursor (state_of (call_eval_each e sec pv sv fr)) = cursor fr"
  by (simp_all add: call_eval_each_def after_hook_fields delivered_def cursor_def)

lemma call_eval_each_my_state:
  "my_state (state_of (call_eval_each e sec pv sv fr)) =
     fst (state_of (e sec pv sv (my_state fr, subsubstate fr)))"
  by (simp add: call_eval_each_def after_hook_fields)

lemma call_ready_fields:
  "initialized (state_of (call_ready r sec pv fr)) = initialized fr"
  "last_subvalue (state_of (call_ready r sec pv fr)) = last_subvalue fr"
  "hook_calls (state_of (call_ready r sec pv fr)) = hook_calls fr @ [Ready_call pv]"
  "delivered (state_of (call_ready r sec pv fr)) = delivered fr"
  "cursor (state_of (call_ready r sec pv fr)) = cursor fr"
  "my_state (state_of (call_ready r sec pv fr)) = fst (state_of (r sec pv (my_state fr, subsubstate fr)))"
  by (simp_all add: call_ready_def after_hook_fields delivered_def cursor_def)

lemma each_loop_exit:
  "case each_loop e sec pv xs i fr of
     Exhausted fr' \<Rightarrow>
       delivered fr' = delivered fr @ xs \<and> initialized fr' = initialized fr \<and>
       last_subvalue fr' = (if xs = [] then last_subvalue fr else Some (i + length xs - 1)) \<and>
       (if xs = [] then fr' = fr else \<not> m_finished (my_state fr'))
   | Returned fr' \<Rightarrow>
       m_finished (my_state fr') \<and> initialized fr' = initialized fr \<and>
       (\<exists>k<length xs. delivered fr' = delivered fr @ take (Suc k) xs \<and>
          last_subvalue fr' = (if k = 0 then last_subvalue fr else Some (i + k - 1)))
   | Thrown err fr' \<Rightarrow>
       initialized fr' = initialized fr \<and>
       (\<exists>k<length xs. delivered fr' = delivered fr @ take (Suc k) xs \<and>
          last_subvalue fr' = (if k = 0 then last_subvalue fr else Some (i + k - 1)))"
proof (induction xs arbitrary: i fr)
  case Nil
  then show ?case by simp
next
  case (Cons x xs)
  show ?case
  proof (cases "call_eval_each e sec pv x fr")
    case (Throw err fr1)
    with call_eval_each_fields [of e sec pv x fr]
    show ?thesis by (auto intro!: exI [of _ 0])
  next
    case (Normal fr1)
    note f = call_eval_each_fields [of e sec pv x fr, unfolded Normal, simplified]
    show ?thesis
    proof (cases "m_finished (my_state fr1)")
      case True
      with Normal f show ?thesis by (auto intro!: exI [of _ 0])
    next
      case False
      let ?fr2 = "fr1\<lparr>last_subvalue := Some i\<rparr>"
      have d2: "delivered ?fr2 = delivered fr @ [x]" "initialized ?fr2 = initialized fr"
        using f by (simp_all add: delivered_def)
      show ?thesis
      proof (cases "each_loop e sec pv xs (Suc i) ?fr2")
        case (Exhausted fr')
        with Cons.IH [where i = "Suc i" and fr = ?fr2] Normal False d2 show ?thesis
          by (auto split: if_splits)
      next
        case (Returned fr')
        with Cons.IH [where i = "Suc i" and fr = ?fr2] obtain k where
          k: "k < length xs" "delivered fr' = delivered ?fr2 @ take (Suc k) xs"
             "last_subvalue fr' = (if k = 0 then last_subvalue ?fr2 else Some (Suc i + k - 1))"
             "m_finished (my_state fr')" "initialized fr' = initialized ?fr2"
          by auto
        with Normal False Returned d2 show ?thesis
          by (auto intro!: exI [of _ "Suc k"])
      next
        case (Thrown err fr')
        with Cons.IH [where i = "Suc i" and fr = ?fr2] obtain k where
          k: "k < length xs" "delivered fr' = delivered ?fr2 @ take (Suc k) xs"
             "last_subvalue fr' = (if k = 0 then last_subvalue ?fr2 else Some (Suc i + k - 1))"
             "initialized fr' = initialized ?fr2"
          by auto
        with Normal False Thrown d2 show ?thesis
          by (auto intro!: exI [of _ "Suc k"])
      qed
    qed
  qed
qed

lemma on_my_state_finish:
  "\<not> m_finished (my_state fr) \<Longrightarrow>
   on_my_state finish fr = Normal (fr\<lparr>my_state := (my_state fr)\<lparr>m_finished := True\<rparr>\<rparr>)"
  by (simp add: on_my_state_def finish_def)

lemma delivered_my_state_update [simp]:
  "delivered (fr\<lparr>my_state := s\<rparr>) = delivered fr"
  "delivered (fr\<lparr>initialized := b\<rparr>) = delivered fr"
  "delivered (fr\<lparr>last_subvalue := l\<rparr>) = delivered fr"
  "cursor (fr\<lparr>my_state := s\<rparr>) = cursor fr"
  "cursor (fr\<lparr>initialized := b\<rparr>) = cursor fr"
  by (simp_all add: delivered_def cursor_def)

lemma each_from_exit:
  "case each_from e sec p i fr of
     Normal fr' \<Rightarrow>
       initialized fr' = initialized fr \<and>
       ((delivered fr' = delivered fr @ drop i (as_list (m_value p)) \<and>
         last_subvalue fr' =
           (if drop i (as_list (m_value p)) = [] then last_subvalue fr
            else Some (i + length (drop i (as_list (m_value p))) - 1)) \<and>
         (m_finished p \<or> drop i (as_list (m_value p)) = [] \<and> my_state fr' = my_state fr
            \<or> \<not> m_finished (my_state fr')) \<and>
         (m_finished p \<longrightarrow> m_finished (my_state fr')))
        \<or>
        (m_finished (my_state fr') \<and>
         (\<exists>k<length (drop i (as_list (m_value p))).
            delivered fr' = delivered fr @ take (Suc k) (drop i (as_list (m_value p))) \<and>
            last_subvalue fr' = (if k = 0 then last_subvalue fr else Some (i + k - 1)))))
   | Throw err fr' \<Rightarrow>
       initialized fr' = initialized fr \<and>
       (\<exists>k<length (drop i (as_list (m_value p))).
          delivered fr' = delivered fr @ take (Suc k) (drop i (as_list (m_value p))) \<and>
          last_subvalue fr' = (if k = 0 then last_subvalue fr else Some (i + k - 1)))"
proof -
  let ?xs = "drop i (as_list (m_value p))"
  note L = each_loop_exit [where e = e and sec = sec and pv = "m_value p" and xs = ?xs and i = i and fr = fr]
  show ?thesis
  proof (cases "each_loop e sec (m_value p) ?xs i fr")
    case (Exhausted fr3)
    with L have f3:
      "delivered fr3 = delivered fr @ ?xs" "initialized fr3 = initialized fr"
      "last_subvalue fr3 = (if ?xs = [] then last_subvalue fr else Some (i + length ?xs - 1))"
      "if ?xs = [] then fr3 = fr else \<not> m_finished (my_state fr3)"
      by simp_all
    show ?thesis
    proof (cases "m_finished p \<and> \<not> m_finished (my_state fr3)")
      case True
      with Exhausted f3 show ?thesis
        by (simp add: each_from_def on_my_state_finish)
    next
      case False
      with Exhausted f3 show ?thesis
        by (auto simp add: each_from_def split: if_splits)
    qed
  next
    case (Returned fr3)
    with L show ?thesis
      by (auto simp add: each_from_def)
  next
    case (Thrown err fr3)
    with L show ?thesis
      by (auto simp add: each_from_def)
  qed
qed

lemma take_prefix_eq:
  "prefix xs xs' \<Longrightarrow> c \<le> length xs \<Longrightarrow> take c xs = take c xs'"
  by (auto simp add: prefix_def)

lemma each_from_step:
  assumes un: "\<not> m_finished (my_state fr0)"
    and ini: "initialized fr0"
    and del: "delivered fr0 = take (cursor fr0) xs'"
    and le: "cursor fr0 \<le> length xs'"
    and ne: "xs' \<noteq> []"
    and xs': "as_list (m_value p) = xs'"
  shows "case each_from e sec p (cursor fr0) fr0 of
           Normal fr' \<Rightarrow>
             cursor_inv xs' fr' \<and> cursor fr0 \<le> cursor fr' \<and>
             (m_finished (my_state fr') \<or> delivered fr' = xs')
         | Throw err fr' \<Rightarrow> prefix (delivered fr') xs' \<and> cursor fr0 \<le> cursor fr'"
proof -
  let ?c = "cursor fr0"
  note E = each_from_exit [where e = e and sec = sec and p = p and i = ?c and fr = fr0,
      unfolded xs']
  have part: "delivered fr0 @ take (Suc k) (drop ?c xs') = take (?c + Suc k) xs'" for k
    using del take_add [of ?c "Suc k" xs'] by simp
  have all: "delivered fr0 @ drop ?c xs' = xs'"
    using del by simp
  have cur: "\<And>fr' k. last_subvalue fr' = (if k = 0 then last_subvalue fr0 else Some (?c + k - 1))
      \<Longrightarrow> cursor fr' = ?c + k"
    by (auto simp add: cursor_def split: option.splits)
  show ?thesis
  proof (cases "each_from e sec p ?c fr0")
    case (Throw err fr')
    with E obtain k where k: "delivered fr' = delivered fr0 @ take (Suc k) (drop ?c xs')"
      "last_subvalue fr' = (if k = 0 then last_subvalue fr0 else Some (?c + k - 1))"
      by auto
    from k(1) have "prefix (delivered fr') xs'"
      unfolding part by (simp add: take_is_prefix)
    with cur [OF k(2)] Throw show ?thesis by simp
  next
    case (Normal fr')
    with E have i': "initialized fr'" using ini by simp
    from E Normal consider
      (A) "delivered fr' = delivered fr0 @ drop ?c xs'"
          "last_subvalue fr' =
             (if drop ?c xs' = [] then last_subvalue fr0
              else Some (?c + length (drop ?c xs') - 1))"
      | (B) k where "m_finished (my_state fr')"
          "delivered fr' = delivered fr0 @ take (Suc k) (drop ?c xs')"
          "last_subvalue fr' = (if k = 0 then last_subvalue fr0 else Some (?c + k - 1))"
      by auto
    then show ?thesis
    proof cases
      case A
      have d: "delivered fr' = xs'" using A(1) all by simp
      have c: "cursor fr' = length xs'"
      proof (cases "drop ?c xs' = []")
        case True
        with A(2) le show ?thesis by (simp add: cursor_def)
      next
        case False
        with A(2) le show ?thesis by (simp add: cursor_def)
      qed
      have "last_subvalue fr' \<noteq> None"
        using c ne by (auto simp add: cursor_def split: option.splits)
      with d c i' le Normal show ?thesis
        by (simp add: cursor_inv_def)
    next
      case B
      from B(2) have "prefix (delivered fr') xs'"
        unfolding part by (simp add: take_is_prefix)
      with cur [OF B(3)] B(1) i' Normal show ?thesis
        by (simp add: cursor_inv_def)
    qed
  qed
qed

lemma eval_primary_list_step:
  assumes inv: "cursor_inv xs fr"
    and pre: "prefix xs xs'"
    and lst: "type_is_LIST (m_value p)"
    and xs': "as_list (m_value p) = xs'"
    and rk: "\<And>sec pv. stays_finished (ready sec pv)"
  shows "case Each_eval_primary ready e sec p fr of
           Normal fr' \<Rightarrow>
             cursor_inv xs' fr' \<and> cursor fr \<le> cursor fr' \<and>
             (m_finished (my_state fr') \<or> delivered fr' = xs') \<and>
             (m_finished (my_state fr) \<longrightarrow> m_finished (my_state fr'))
         | Throw err fr' \<Rightarrow> prefix (delivered fr') xs' \<and> cursor fr \<le> cursor fr'"
proof -
  have nn: "\<not> is_null (m_value p)"
    using lst by (cases "m_value p") auto
  have pd: "prefix (delivered fr) xs'"
    using inv pre by (auto simp add: cursor_inv_def)
  note R = call_ready_fields [where r = ready and sec = sec and pv = "m_value p" and fr = fr]
  show ?thesis
  proof (cases "call_ready ready sec (m_value p) fr")
    case (Throw err fr1)
    then have "Each_eval_primary ready e sec p fr = Throw err fr1"
      by (simp add: Each_eval_primary_def nn lst)
    moreover have "delivered fr1 = delivered fr" "cursor fr1 = cursor fr"
      using R Throw by simp_all
    ultimately show ?thesis using pd by simp
  next
    case (Normal fr1)
    have f1: "delivered fr1 = delivered fr" "cursor fr1 = cursor fr"
      "initialized fr1 = initialized fr" "last_subvalue fr1 = last_subvalue fr"
      using R Normal by simp_all
    have fin1: "m_finished (my_state fr1)" if "m_finished (my_state fr)"
      using that rk [of sec "m_value p"] R(6) Normal
      by (simp add: stays_finished_def)
    have inv1: "cursor_inv xs' fr1"
      using inv pre pd f1 fin1 take_prefix_eq [OF pre, of "cursor fr"]
      by (auto simp add: cursor_inv_def dest: prefix_length_le)
    show ?thesis
    proof (cases "xs' = []")
      case True
      then have d0: "delivered fr1 = []" using pd f1 by simp
      show ?thesis
      proof (cases "m_finished p \<and> \<not> m_finished (my_state fr1)")
        case T2: True
        then have "Each_eval_primary ready e sec p fr =
            Normal (fr1\<lparr>my_state := (my_state fr1)\<lparr>m_finished := True\<rparr>\<rparr>)"
          using Normal True xs' by (simp add: Each_eval_primary_def nn lst on_my_state_finish)
        then show ?thesis
          using inv1 f1 d0 True by (simp add: cursor_inv_def)
      next
        case False
        then have "Each_eval_primary ready e sec p fr = Normal fr1"
          using Normal True xs' by (auto simp add: Each_eval_primary_def nn lst)
        then show ?thesis
          using inv1 f1 d0 True fin1 by simp
      qed
    next
      case ne: False
      show ?thesis
      proof (cases "m_finished (my_state fr1)")
        case True
        then have "Each_eval_primary ready e sec p fr = Normal fr1"
          using Normal ne xs' by (simp add: Each_eval_primary_def nn lst)
        then show ?thesis
          using inv1 f1 True by simp
      next
        case un: False
        with fin1 have unfr: "\<not> m_finished (my_state fr)" by auto
        from inv1 un have c1: "delivered fr1 = take (cursor fr1) xs'" "cursor fr1 \<le> length xs'"
          "\<not> initialized fr1 \<longrightarrow> last_subvalue fr1 = None"
          "initialized fr1 \<longrightarrow> last_subvalue fr1 \<noteq> None"
          by (simp_all add: cursor_inv_def)
        show ?thesis
        proof (cases "initialized fr1")
          case False
          let ?fr0 = "fr1\<lparr>initialized := True\<rparr>"
          have c0: "cursor ?fr0 = 0" "cursor fr1 = 0"
            using c1(3) False by (simp_all add: cursor_def)
          have "Each_eval_primary ready e sec p fr = each_from e sec p (cursor ?fr0) ?fr0"
            using Normal ne xs' un False c0
            by (simp add: Each_eval_primary_def nn lst)
          moreover note each_from_step [where ?fr0.0 = ?fr0 and xs' = xs' and p = p
              and e = e and sec = sec]
          ultimately show ?thesis
            using un unfr c1 c0 ne xs' f1 by (auto split: outcome.splits)
        next
          case True
          with c1(4) obtain j where j: "last_subvalue fr1 = Some j" by auto
          then have cj: "cursor fr1 = Suc j" by (simp add: cursor_def)
          have "Each_eval_primary ready e sec p fr = each_from e sec p (cursor fr1) fr1"
            using Normal ne xs' un True j cj
            by (simp add: Each_eval_primary_def nn lst)
          moreover note each_from_step [where ?fr0.0 = fr1 and xs' = xs' and p = p
              and e = e and sec = sec]
          ultimately show ?thesis
            using un unfr c1 True ne xs' f1 by (auto split: outcome.splits)
        qed
      qed
    qed
  qed
qed

lemma grows_final_list: "grows xs ps \<Longrightarrow> prefix xs (final_list xs ps)"
proof (induction ps arbitrary: xs)
  case Nil
  then show ?case by simp
next
  case (Cons p ps)
  then have "prefix xs (as_list (m_value p))"
    "prefix (as_list (m_value p)) (final_list (as_list (m_value p)) ps)"
    by simp_all
  then show ?case by (simp del: prefix_order.dual_order.trans add: prefix_order.trans)
qed

lemma Each_run_inv:
  assumes "cursor_inv xs fr" and "grows xs ps"
    and rk: "\<And>sec pv. stays_finished (ready sec pv)"
  shows "case Each_run ready e sec ps fr of
           Normal fr' \<Rightarrow>
             cursor_inv (final_list xs ps) fr' \<and> cursor fr \<le> cursor fr' \<and>
             (ps \<noteq> [] \<longrightarrow> m_finished (my_state fr') \<or> delivered fr' = final_list xs ps) \<and>
             (m_finished (my_state fr) \<longrightarrow> m_finished (my_state fr'))
         | Throw err fr' \<Rightarrow>
             prefix (delivered fr') (final_list xs ps) \<and> cursor fr \<le> cursor fr'"
  using assms(1,2)
proof (induction ps arbitrary: xs fr)
  case Nil
  then show ?case by simp
next
  case (Cons p ps)
  let ?xs' = "as_list (m_value p)"
  from Cons.prems have g: "type_is_LIST (m_value p)" "prefix xs ?xs'" "grows ?xs' ps"
    by simp_all
  note S = eval_primary_list_step [where ready = ready and e = e and sec = sec,
      OF Cons.prems(1) g(2) g(1) refl rk]
  show ?case
  proof (cases "Each_eval_primary ready e sec p fr")
    case (Throw err fr1)
    with S have "prefix (delivered fr1) ?xs'" "cursor fr \<le> cursor fr1" by simp_all
    with grows_final_list [OF g(3)] Throw show ?thesis
      by (auto intro: prefix_order.trans)
  next
    case (Normal fr1)
    with S have s1: "cursor_inv ?xs' fr1" "cursor fr \<le> cursor fr1"
      "m_finished (my_state fr1) \<or> delivered fr1 = ?xs'"
      "m_finished (my_state fr) \<longrightarrow> m_finished (my_state fr1)"
      by simp_all
    note IH = Cons.IH [OF s1(1) g(3)]
    show ?thesis
    proof (cases ps)
      case Nil
      with Normal s1 show ?thesis by simp
    next
      case (Cons q qs)
      with IH Normal s1 show ?thesis
        by (auto split: outcome.splits)
    qed
  qed
qed

subsection \<open>Each::eval_primary: runs over a growing list\<close>

lemma cursor_inv_running:
  "cursor_inv xs fr \<Longrightarrow> \<not> m_finished (my_state fr) \<Longrightarrow>
   initialized fr = (last_subvalue fr \<noteq> None) \<and> delivered fr = take (cursor fr) xs \<and>
   drop (cursor fr) xs = drop (length (delivered fr)) xs"
  by (auto simp add: cursor_inv_def)

lemma Each_run_append:
  "Each_run ready e sec (ps1 @ ps2) fr =
     (case Each_run ready e sec ps1 fr of
        Throw err fr' \<Rightarrow> Throw err fr'
      | Normal fr' \<Rightarrow> Each_run ready e sec ps2 fr')"
  by (induction ps1 arbitrary: fr) (auto split: outcome.splits)

lemma grows_append:
  "grows xs (ps1 @ ps2) \<longleftrightarrow> grows xs ps1 \<and> grows (final_list xs ps1) ps2"
  by (induction ps1 arbitrary: xs) auto

lemma cursor_inv_initial: "cursor_inv [] (Each_eval_initialize sub)"
  by (simp add: cursor_inv_def Each_eval_initialize_def delivered_def cursor_def
      fresh_node_eval_state_def)

lemma Each_run_cursor_mono:
  assumes "grows [] (ps1 @ ps2)"
    and rk: "\<And>sec pv. stays_finished (ready sec pv)"
  shows "cursor (state_of (Each_run ready e sec ps1 (Each_eval_initialize sub)))
           \<le> cursor (state_of (Each_run ready e sec (ps1 @ ps2) (Each_eval_initialize sub)))"
proof -
  from assms(1) have g: "grows [] ps1" "grows (final_list [] ps1) ps2"
    by (simp_all add: grows_append)
  note I1 = Each_run_inv [where ready = ready and e = e and sec = sec,
      OF cursor_inv_initial g(1) rk, of sub]
  show ?thesis
  proof (cases "Each_run ready e sec ps1 (Each_eval_initialize sub)")
    case (Throw err fr1)
    then show ?thesis by (simp add: Each_run_append)
  next
    case (Normal fr1)
    with I1 have "cursor_inv (final_list [] ps1) fr1" by simp
    from Each_run_inv [where ready = ready and e = e and sec = sec, OF this g(2) rk]
    show ?thesis
      using Normal by (auto simp add: Each_run_append split: outcome.splits)
  qed
qed

lemma stays_finished_Each_ready: "stays_finished (Each_ready sec pv)"
  by (simp add: stays_finished_def Each_ready_def)

lemma stays_finished_Map_ready: "stays_finished (Map_ready sec pv)"
  by (simp add: stays_finished_def Map_ready_def setup_local_list_def)


lemma leaves_running_Each_ready: "leaves_running (Each_ready sec pv)"
  by (simp add: leaves_running_def Each_ready_def)

lemma leaves_running_Map_ready: "leaves_running (Map_ready sec pv)"
  by (simp add: leaves_running_def Map_ready_def setup_local_list_def)

lemma leaves_running_Filter_ready: "leaves_running (Filter_ready sec pv)"
  by (simp add: leaves_running_def Filter_ready_def setup_local_list_def)

lemma leaves_running_Map_eval_each:
  "type_is_LIST pv \<Longrightarrow> leaves_running (Map_eval_each f sec pv sv)"
  by (auto simp add: leaves_running_def Map_eval_each_def with_substate_def
      append_to_list_def split: prod.splits val.splits)

lemma each_loop_returned_by_hook:
  "each_loop e sec pv xs i fr = Returned fr' \<Longrightarrow> \<not> m_finished (my_state fr) \<Longrightarrow>
   \<exists>s ss. \<not> m_finished s \<and>
      m_finished (fst (state_of (e sec pv (last (delivered fr')) (s, ss))))"
proof (induction xs arbitrary: i fr)
  case Nil
  then show ?case by simp
next
  case (Cons x xs)
  show ?case
  proof (cases "call_eval_each e sec pv x fr")
    case (Throw err fr1)
    with Cons.prems show ?thesis by simp
  next
    case (Normal fr1)
    note m = call_eval_each_my_state [of e sec pv x fr, unfolded Normal, simplified]
    note d = call_eval_each_fields(4) [of e sec pv x fr, unfolded Normal, simplified]
    show ?thesis
    proof (cases "m_finished (my_state fr1)")
      case True
      with Cons.prems(1) Normal have "fr' = fr1" by simp
      with m d True Cons.prems(2) show ?thesis by auto
    next
      case False
      with Cons.prems(1) Normal
      have "each_loop e sec pv xs (Suc i) (fr1\<lparr>last_subvalue := Some i\<rparr>) = Returned fr'"
        by simp
      from Cons.IH [OF this] False show ?thesis by simp
    qed
  qed
qed

lemma each_from_finish_kind:
  assumes un: "\<not> m_finished (my_state fr0)"
    and del: "delivered fr0 = take (cursor fr0) xs'"
    and le: "cursor fr0 \<le> length xs'"
    and xs': "as_list (m_value p) = xs'"
  shows "case each_from e sec p (cursor fr0) fr0 of
           Normal fr' \<Rightarrow>
             m_finished (my_state fr') \<longrightarrow>
               delivered fr' = xs' \<and> m_finished p \<or>
               finished_early fr' \<and>
               (\<exists>s ss. \<not> m_finished s \<and>
                  m_finished (fst (state_of (e sec (m_value p) (last (delivered fr')) (s, ss)))))
         | Throw err fr' \<Rightarrow> True"
proof -
  let ?c = "cursor fr0"
  let ?xs = "drop ?c xs'"
  note L = each_loop_exit [where e = e and sec = sec and pv = "m_value p" and xs = ?xs
      and i = ?c and fr = fr0]
  have all: "delivered fr0 @ ?xs = xs'"
    using del by simp
  have len0: "length (delivered fr0) = ?c"
    using del le by simp
  show ?thesis
  proof (cases "each_loop e sec (m_value p) ?xs ?c fr0")
    case (Exhausted fr3)
    with L have f3: "delivered fr3 = xs'" "\<not> m_finished (my_state fr3)"
      using all un by (auto split: if_splits)
    show ?thesis
    proof (cases "m_finished p")
      case True
      with Exhausted f3 show ?thesis
        by (simp add: each_from_def xs' on_my_state_finish)
    next
      case False
      with Exhausted f3 show ?thesis
        by (simp add: each_from_def xs')
    qed
  next
    case (Returned fr3)
    with L obtain k where k: "m_finished (my_state fr3)"
      "delivered fr3 = delivered fr0 @ take (Suc k) ?xs" "k < length ?xs"
      "last_subvalue fr3 = (if k = 0 then last_subvalue fr0 else Some (?c + k - 1))"
      by auto
    from k(4) have c3: "cursor fr3 = ?c + k"
      by (auto simp add: cursor_def split: option.splits)
    from k(2,3) len0 have "length (delivered fr3) = ?c + Suc k"
      by simp
    with c3 k(1) have "finished_early fr3"
      by (simp add: finished_early_def)
    moreover note each_loop_returned_by_hook [OF Returned un]
    ultimately show ?thesis
      using Returned by (simp add: each_from_def xs')
  next
    case (Thrown err fr3)
    then show ?thesis by (simp add: each_from_def xs')
  qed
qed


lemma eval_primary_finished_frame:
  assumes fin: "m_finished (my_state fr)"
    and lst: "type_is_LIST (m_value p)"
    and rk: "\<And>sec pv. stays_finished (ready sec pv)"
  shows "case Each_eval_primary ready e sec p fr of
           Normal fr' \<Rightarrow>
             m_finished (my_state fr') \<and> delivered fr' = delivered fr \<and> cursor fr' = cursor fr
         | Throw err fr' \<Rightarrow> True"
proof -
  have nn: "\<not> is_null (m_value p)"
    using lst by (cases "m_value p") auto
  note R = call_ready_fields [where r = ready and sec = sec and pv = "m_value p" and fr = fr]
  show ?thesis
  proof (cases "call_ready ready sec (m_value p) fr")
    case (Throw err fr1)
    then show ?thesis
      by (simp add: Each_eval_primary_def nn lst)
  next
    case (Normal fr1)
    have f1: "delivered fr1 = delivered fr" "cursor fr1 = cursor fr"
      using R Normal by simp_all
    have fin1: "m_finished (my_state fr1)"
      using fin rk [of sec "m_value p"] R(6) Normal
      by (simp add: stays_finished_def)
    from Normal fin1 have "Each_eval_primary ready e sec p fr = Normal fr1"
      by (simp add: Each_eval_primary_def nn lst)
    with f1 fin1 show ?thesis by simp
  qed
qed

lemma eval_primary_finish_kind:
  assumes inv: "cursor_inv xs fr"
    and un: "\<not> m_finished (my_state fr)"
    and pre: "prefix xs xs'"
    and lst: "type_is_LIST (m_value p)"
    and xs': "as_list (m_value p) = xs'"
    and rl: "\<And>sec pv. leaves_running (ready sec pv)"
  shows "case Each_eval_primary ready e sec p fr of
           Normal fr' \<Rightarrow>
             m_finished (my_state fr') \<longrightarrow>
               delivered fr' = xs' \<and> m_finished p \<or>
               finished_early fr' \<and>
               (\<exists>s ss. \<not> m_finished s \<and>
                  m_finished (fst (state_of (e sec (m_value p) (last (delivered fr')) (s, ss)))))
         | Throw err fr' \<Rightarrow> True"
proof -
  have nn: "\<not> is_null (m_value p)"
    using lst by (cases "m_value p") auto
  note R = call_ready_fields [where r = ready and sec = sec and pv = "m_value p" and fr = fr]
  show ?thesis
  proof (cases "call_ready ready sec (m_value p) fr")
    case (Throw err fr1)
    then show ?thesis
      by (simp add: Each_eval_primary_def nn lst)
  next
    case (Normal fr1)
    have f1: "delivered fr1 = delivered fr" "cursor fr1 = cursor fr"
      "initialized fr1 = initialized fr" "last_subvalue fr1 = last_subvalue fr"
      using R Normal by simp_all
    have un1: "\<not> m_finished (my_state fr1)"
      using un rl [of sec "m_value p"] R(6) Normal
      by (simp add: leaves_running_def)
    from inv un have c: "delivered fr = take (cursor fr) xs" "cursor fr \<le> length xs"
      "\<not> initialized fr \<longrightarrow> last_subvalue fr = None"
      "initialized fr \<longrightarrow> last_subvalue fr \<noteq> None"
      by (simp_all add: cursor_inv_def)
    have c1: "delivered fr1 = take (cursor fr1) xs'" "cursor fr1 \<le> length xs'"
      using c(1,2) f1 take_prefix_eq [OF pre c(2)] prefix_length_le [OF pre] by simp_all
    show ?thesis
    proof (cases "xs' = []")
      case True
      then have d0: "delivered fr1 = []" using c1 by simp
      show ?thesis
      proof (cases "m_finished p")
        case T2: True
        then have "Each_eval_primary ready e sec p fr =
            Normal (fr1\<lparr>my_state := (my_state fr1)\<lparr>m_finished := True\<rparr>\<rparr>)"
          using Normal True xs' un1 by (simp add: Each_eval_primary_def nn lst on_my_state_finish)
        then show ?thesis
          using d0 True T2 by simp
      next
        case False
        then have "Each_eval_primary ready e sec p fr = Normal fr1"
          using Normal True xs' by (auto simp add: Each_eval_primary_def nn lst)
        then show ?thesis
          using un1 by simp
      qed
    next
      case ne: False
      show ?thesis
      proof (cases "initialized fr1")
        case False
        let ?fr0 = "fr1\<lparr>initialized := True\<rparr>"
        have c0: "cursor ?fr0 = 0" "cursor fr1 = 0"
          using c(3) f1 False by (simp_all add: cursor_def)
        have "Each_eval_primary ready e sec p fr = each_from e sec p (cursor ?fr0) ?fr0"
          using Normal ne xs' un1 False c0
          by (simp add: Each_eval_primary_def nn lst)
        moreover note each_from_finish_kind [where ?fr0.0 = ?fr0 and xs' = xs' and p = p
            and e = e and sec = sec]
        ultimately show ?thesis
          using un1 c1 c0 xs' by (auto split: outcome.splits)
      next
        case True
        with c(4) f1 obtain j where j: "last_subvalue fr1 = Some j" by auto
        then have cj: "cursor fr1 = Suc j" by (simp add: cursor_def)
        have "Each_eval_primary ready e sec p fr = each_from e sec p (cursor fr1) fr1"
          using Normal ne xs' un1 True j cj
          by (simp add: Each_eval_primary_def nn lst)
        moreover note each_from_finish_kind [where ?fr0.0 = fr1 and xs' = xs' and p = p
            and e = e and sec = sec]
        ultimately show ?thesis
          using un1 c1 xs' by (auto split: outcome.splits)
      qed
    qed
  qed
qed

lemma Each_run_finish_kind:
  assumes inv: "cursor_inv xs fr" and g: "grows xs ps" and cl: "closed_stays ps"
    and start: "m_finished (my_state fr) \<longrightarrow>
        delivered fr = xs \<and> list_all (\<lambda>q. as_list (m_value q) = xs) ps \<or>
        finished_early fr \<and>
        finishes_at e sec (last (delivered fr))"
    and rk: "\<And>sec pv. stays_finished (ready sec pv)"
    and rl: "\<And>sec pv. leaves_running (ready sec pv)"
  shows "case Each_run ready e sec ps fr of
           Normal fr' \<Rightarrow>
             m_finished (my_state fr') \<longrightarrow>
               delivered fr' = final_list xs ps \<or>
               finished_early fr' \<and>
               finishes_at e sec (last (delivered fr'))
         | Throw err fr' \<Rightarrow> True"
  using inv g cl start
proof (induction ps arbitrary: xs fr)
  case Nil
  then show ?case by simp
next
  case (Cons p ps)
  let ?xs' = "as_list (m_value p)"
  from Cons.prems(2) have g: "type_is_LIST (m_value p)" "prefix xs ?xs'" "grows ?xs' ps"
    by simp_all
  from Cons.prems(3) have cl: "closed_stays ps"
    "m_finished p \<longrightarrow> list_all (\<lambda>q. as_list (m_value q) = ?xs') ps"
    by simp_all
  note S = eval_primary_list_step [where ready = ready and e = e and sec = sec,
      OF Cons.prems(1) g(2) g(1) refl rk]
  show ?case
  proof (cases "Each_eval_primary ready e sec p fr")
    case (Throw err fr1)
    then show ?thesis by simp
  next
    case (Normal fr1)
    with S have s1: "cursor_inv ?xs' fr1" by simp
    have start1: "m_finished (my_state fr1) \<longrightarrow>
        delivered fr1 = ?xs' \<and> list_all (\<lambda>q. as_list (m_value q) = ?xs') ps \<or>
        finished_early fr1 \<and> finishes_at e sec (last (delivered fr1))"
    proof (cases "m_finished (my_state fr)")
      case True
      from eval_primary_finished_frame [where ready = ready and e = e and sec = sec,
          OF True g(1) rk] Normal
      have f: "m_finished (my_state fr1)" "delivered fr1 = delivered fr" "cursor fr1 = cursor fr"
        by simp_all
      from Cons.prems(4) True consider
        (nat) "delivered fr = xs" "list_all (\<lambda>q. as_list (m_value q) = xs) (p # ps)"
        | (early) "finished_early fr" "finishes_at e sec (last (delivered fr))"
        by blast
      then show ?thesis
      proof cases
        case nat
        then have "?xs' = xs" by simp
        with nat f show ?thesis by simp
      next
        case early
        with f show ?thesis by (simp add: finished_early_def)
      qed
    next
      case False
      from eval_primary_finish_kind [where ready = ready and e = e and sec = sec,
          OF Cons.prems(1) False g(2) g(1) refl rl] Normal
      have "m_finished (my_state fr1) \<longrightarrow>
               delivered fr1 = ?xs' \<and> m_finished p \<or>
               finished_early fr1 \<and>
               (\<exists>s ss. \<not> m_finished s \<and>
                  m_finished (fst (state_of (e sec (m_value p) (last (delivered fr1)) (s, ss)))))"
        by simp
      with cl(2) g(1) show ?thesis
        unfolding finishes_at_def by blast
    qed
    from Cons.IH [OF s1 g(3) cl(1) start1] Normal show ?thesis
      by (simp split: outcome.splits)
  qed
qed


text \<open>
  C3.  A run of \<^verbatim>\<open>eval_primary\<close> calls on a new frame, over a primary list that
  only grows (\<open>grows\<close>), with any \<^verbatim>\<open>eval_each\<close> and any \<^verbatim>\<open>ready\<close> that lets
  finished nodes stay finished (as \<^verbatim>\<open>Each::ready\<close>, \<^verbatim>\<open>Map::ready\<close> and
  \<^verbatim>\<open>Filter::ready\<close> do).  At the end of the run, or at the exception that ends it,
  the subvalues passed to \<^verbatim>\<open>eval_each\<close> over all the calls are a prefix of the
  primary list: its elements in list order, none of them twice.  When the run ends
  with the node still running, they are the whole list.  When moreover the list of a
  finished primary argument is closed (\<open>closed_stays\<close>) and \<^verbatim>\<open>ready\<close> does not
  finish the node itself (\<open>leaves_running\<close>, as the three \<^verbatim>\<open>ready\<close> do), a run
  that ends without an exception has passed the whole list, every element once, also
  when it ends with the node finished, unless \<^verbatim>\<open>eval_each\<close> finished the node
  early (\<open>finished_early\<close>), at the last subvalue it was passed (\<open>finishes_at\<close>);
  and with an \<^verbatim>\<open>eval_each\<close> that never finishes a running node on a list, as
  \<^verbatim>\<open>Map::eval_each\<close>, it has passed the whole list.
  The cursor after any number of the calls is at most the cursor after all of them: it
  is never moved back.
\<close>

theorem Each_delivers_list_in_order:
  assumes g: "grows [] ps"
    and rk: "\<And>sec pv. stays_finished (ready sec pv)"
  shows "prefix (delivered (state_of (Each_run ready e sec ps (Each_eval_initialize sub))))
           (final_list [] ps) \<and>
         (is_Normal (Each_run ready e sec ps (Each_eval_initialize sub)) \<longrightarrow>
            m_finished (my_state (state_of (Each_run ready e sec ps (Each_eval_initialize sub))))
            \<or> delivered (state_of (Each_run ready e sec ps (Each_eval_initialize sub)))
                = final_list [] ps) \<and>
         (closed_stays ps \<and> (\<forall>sec pv. leaves_running (ready sec pv)) \<and>
          is_Normal (Each_run ready e sec ps (Each_eval_initialize sub)) \<longrightarrow>
            (delivered (state_of (Each_run ready e sec ps (Each_eval_initialize sub)))
               = final_list [] ps
             \<or> finished_early (state_of (Each_run ready e sec ps (Each_eval_initialize sub)))
               \<and> finishes_at e sec
                     (last (delivered
                        (state_of (Each_run ready e sec ps (Each_eval_initialize sub)))))) \<and>
            ((\<forall>pv sv. type_is_LIST pv \<longrightarrow> leaves_running (e sec pv sv)) \<longrightarrow>
             delivered (state_of (Each_run ready e sec ps (Each_eval_initialize sub)))
               = final_list [] ps)) \<and>
         (\<forall>k. cursor (state_of (Each_run ready e sec (take k ps) (Each_eval_initialize sub)))
                \<le> cursor (state_of (Each_run ready e sec ps (Each_eval_initialize sub))))"
proof -
  let ?R = "Each_run ready e sec ps (Each_eval_initialize sub)"
  note I = Each_run_inv [where ready = ready and e = e and sec = sec,
      OF cursor_inv_initial g rk, of sub]
  have 1: "prefix (delivered (state_of ?R)) (final_list [] ps)"
    using I by (auto simp add: cursor_inv_def split: outcome.splits)
  have 2: "is_Normal ?R \<longrightarrow>
            m_finished (my_state (state_of ?R)) \<or> delivered (state_of ?R) = final_list [] ps"
  proof (cases ps)
    case Nil
    then show ?thesis by (simp add: Each_eval_initialize_def delivered_def)
  next
    case (Cons q qs)
    with I show ?thesis by (auto split: outcome.splits)
  qed
  have 3: "cursor (state_of (Each_run ready e sec (take k ps) (Each_eval_initialize sub)))
                \<le> cursor (state_of ?R)" for k
    using Each_run_cursor_mono [where ?ps1.0 = "take k ps" and ?ps2.0 = "drop k ps"
        and ready = ready and e = e and sec = sec and sub = sub] g rk
    by simp
  have 4: "(delivered (state_of ?R) = final_list [] ps
            \<or> finished_early (state_of ?R)
              \<and> finishes_at e sec (last (delivered (state_of ?R)))) \<and>
           ((\<forall>pv sv. type_is_LIST pv \<longrightarrow> leaves_running (e sec pv sv)) \<longrightarrow>
            delivered (state_of ?R) = final_list [] ps)"
    if cl: "closed_stays ps" and rl: "\<forall>sec pv. leaves_running (ready sec pv)"
      and n: "is_Normal ?R"
  proof (cases "m_finished (my_state (state_of ?R))")
    case False
    with 2 n show ?thesis by simp
  next
    case True
    have un0: "\<not> m_finished (my_state (Each_eval_initialize sub))"
      by (simp add: Each_eval_initialize_def fresh_node_eval_state_def)
    from rl have rl': "\<And>sec pv. leaves_running (ready sec pv)" by simp
    from n obtain fr' where fr': "?R = Normal fr'"
      by (cases ?R) simp_all
    from Each_run_finish_kind [where ready = ready and e = e and sec = sec,
        OF cursor_inv_initial g cl _ rk rl', of sub] un0 fr' True
    have k: "delivered fr' = final_list [] ps \<or>
        finished_early fr' \<and>
        finishes_at e sec (last (delivered fr'))"
      by simp
    then show ?thesis
      using fr' by (auto simp add: leaves_running_def finishes_at_def)
  qed
  from 1 2 3 4 show ?thesis by blast
qed

theorem Each_delivers_list_in_order_witness:
  "grows [] [list_1, list_1_2_3] \<and> closed_stays [list_1, list_1_2_3] \<and>
   is_Normal (Each_run Map_ready (Map_eval_each doubles) [] [list_1, list_1_2_3]
      (Each_eval_initialize ())) \<and>
   m_finished (my_state (state_of (Each_run Map_ready (Map_eval_each doubles) []
      [list_1, list_1_2_3] (Each_eval_initialize ())))) \<and>
   delivered (state_of (Each_run Map_ready (Map_eval_each doubles) [] [list_1, list_1_2_3]
      (Each_eval_initialize ()))) = [Number 1, Number 2, Number 3] \<and>
   prefix (delivered (state_of (Each_run Map_ready (Map_eval_each doubles) [] [list_1, list_1_2_3]
      (Each_eval_initialize ())))) (final_list [] [list_1, list_1_2_3]) \<and>
   cursor (state_of (Each_run Map_ready (Map_eval_each doubles) [] (take 1 [list_1, list_1_2_3])
      (Each_eval_initialize ())))
    \<le> cursor (state_of (Each_run Map_ready (Map_eval_each doubles) [] [list_1, list_1_2_3]
      (Each_eval_initialize ())))"
proof -
  have g: "grows [] [list_1, list_1_2_3]"
    by (simp add: list_1_def list_1_2_3_def)
  have cl: "closed_stays [list_1, list_1_2_3]"
    by (simp add: list_1_def list_1_2_3_def)
  have n: "is_Normal (Each_run Map_ready (Map_eval_each doubles) [] [list_1, list_1_2_3]
      (Each_eval_initialize ()))"
    by code_simp
  have f: "m_finished (my_state (state_of (Each_run Map_ready (Map_eval_each doubles) []
      [list_1, list_1_2_3] (Each_eval_initialize ()))))"
    by code_simp
  have l: "final_list [] [list_1, list_1_2_3] = [Number 1, Number 2, Number 3]"
    by (simp add: list_1_2_3_def)
  from Each_delivers_list_in_order [where ready = Map_ready and e = "Map_eval_each doubles"
      and sec = "[]" and sub = "()", OF g stays_finished_Map_ready]
    g cl n f l leaves_running_Map_ready leaves_running_Map_eval_each
  show ?thesis by (metis (no_types, lifting))
qed


subsection \<open>Finished nodes\<close>

















subsection \<open>Each::eval_primary: the calls of the hooks\<close>

text \<open>
  C10.  On a primary value that is neither null nor a list, one call of
  \<^verbatim>\<open>eval_primary\<close> calls \<^verbatim>\<open>ready\<close> and then \<^verbatim>\<open>eval_each\<close>, once each and
  with the primary value as the subvalue; when both return, the node is finished at
  the end of the call with the value \<^verbatim>\<open>eval_each\<close> left (none, when it did not
  finish the node itself).  Whether the primary argument is finished does not enter.
  On a null primary value no hook is called: the node is left as it is while the
  primary argument is not finished, and a running node finishes with null once it is.
\<close>

theorem Each_scalar_primary_finishes:
  "(\<not> is_null (m_value p) \<and> \<not> type_is_LIST (m_value p) \<and>
    ready sec (m_value p) (my_state fr, subsubstate fr) = Normal (s1, ss1) \<and>
    e sec (m_value p) (m_value p) (s1, ss1) = Normal (s2, ss2)
    \<longrightarrow>
    Each_eval_primary ready e sec p fr =
      Normal (fr\<lparr>my_state := s2\<lparr>m_finished := True\<rparr>, subsubstate := ss2,
                 hook_calls := hook_calls fr @
                   [Ready_call (m_value p), Each_call (m_value p) (m_value p)]\<rparr>)) \<and>
   (is_null (m_value p) \<and> \<not> m_finished p \<longrightarrow>
      Each_eval_primary ready e sec p fr = Normal fr) \<and>
   (is_null (m_value p) \<and> m_finished p \<and> \<not> m_finished (my_state fr) \<longrightarrow>
      Each_eval_primary ready e sec p fr =
        Normal (fr\<lparr>my_state := \<lparr>m_value = Null, m_finished = True\<rparr>\<rparr>))"
proof -
  have n: "is_null v \<Longrightarrow> v = Null" for v by (cases v) auto
  show ?thesis
    by (auto simp add: Each_eval_primary_def Let_def call_ready_def call_eval_each_def
        after_hook_def on_my_state_def finish_def finish_with_def dest: n)
qed

theorem Each_scalar_primary_finishes_witness:
  "Each_eval_primary Each_ready (Selector_eval_each above_4) []
      \<lparr>m_value = Number 3, m_finished = False\<rparr> (Each_eval_initialize []) =
     Normal \<lparr>my_state = \<lparr>m_value = Null, m_finished = True\<rparr>, initialized = False,
             last_subvalue = None, subsubstate = [Number 3],
             hook_calls = [Ready_call (Number 3), Each_call (Number 3) (Number 3)]\<rparr> \<and>
   Each_eval_primary Each_ready (Selector_eval_each above_4) []
      \<lparr>m_value = Null, m_finished = False\<rparr> (Each_eval_initialize []) =
     Normal (Each_eval_initialize [])"
  using Each_scalar_primary_finishes [where ready = Each_ready
      and e = "Selector_eval_each above_4" and sec = "[]"
      and p = "\<lparr>m_value = Number 3, m_finished = False\<rparr>"
      and fr = "Each_eval_initialize []" and ?s1.0 = fresh_node_eval_state and ?ss1.0 = "[]"
      and ?s2.0 = fresh_node_eval_state and ?ss2.0 = "[Number 3]"]
    Each_scalar_primary_finishes [where ready = Each_ready
      and e = "Selector_eval_each above_4" and sec = "[]"
      and p = "\<lparr>m_value = Null, m_finished = False\<rparr>"
      and fr = "Each_eval_initialize []"]
  by (simp add: Each_ready_def Selector_eval_each_def above_4_def Each_eval_initialize_def
      fresh_node_eval_state_def)

text \<open>
  C8, as stated, fails:  \<^verbatim>\<open>eval_primary\<close> is called twice with the same state of
  the primary argument, the list \<open>[1]\<close>.  \<^verbatim>\<open>ready\<close> is called at both calls, the
  second time for a primary value it was called for before and after its subvalue
  was streamed.
\<close>

theorem ready_called_again_for_the_same_value:
  "hook_calls (state_of (Each_run Map_ready (Map_eval_each doubles) [] [list_1, list_1]
      (Each_eval_initialize ()))) =
     [Ready_call (ListV ''xs'' [Number 1]),
      Each_call (ListV ''xs'' [Number 1]) (Number 1),
      Ready_call (ListV ''xs'' [Number 1])]"
  by code_simp

lemma each_loop_calls:
  "\<exists>svs. hook_calls (exit_state (each_loop e sec pv xs i fr)) =
           hook_calls fr @ map (Each_call pv) svs"
proof (induction xs arbitrary: i fr)
  case Nil
  show ?case by (auto intro: exI [of _ "[]"])
next
  case (Cons x xs)
  show ?case
  proof (cases "call_eval_each e sec pv x fr")
    case (Throw err fr1)
    with call_eval_each_fields(3) [of e sec pv x fr] show ?thesis
      by (auto intro: exI [of _ "[x]"])
  next
    case (Normal fr1)
    with call_eval_each_fields(3) [of e sec pv x fr]
    have h: "hook_calls fr1 = hook_calls fr @ [Each_call pv x]" by simp
    show ?thesis
    proof (cases "m_finished (my_state fr1)")
      case True
      with Normal h show ?thesis by (auto intro: exI [of _ "[x]"])
    next
      case False
      from Cons.IH [where i = "Suc i" and fr = "fr1\<lparr>last_subvalue := Some i\<rparr>"]
      obtain svs where "hook_calls (exit_state (each_loop e sec pv xs (Suc i)
          (fr1\<lparr>last_subvalue := Some i\<rparr>))) = hook_calls fr1 @ map (Each_call pv) svs"
        by auto
      with Normal False h show ?thesis
        by (auto intro: exI [of _ "x # svs"])
    qed
  qed
qed

lemma each_from_calls:
  "\<exists>svs. hook_calls (state_of (each_from e sec p i fr)) =
           hook_calls fr @ map (Each_call (m_value p)) svs"
proof -
  let ?l = "each_loop e sec (m_value p) (drop i (as_list (m_value p))) i fr"
  from each_loop_calls [where e = e and sec = sec and pv = "m_value p"
      and xs = "drop i (as_list (m_value p))" and i = i and fr = fr]
  obtain svs where s: "hook_calls (exit_state ?l) = hook_calls fr @ map (Each_call (m_value p)) svs"
    by auto
  have "hook_calls (state_of (each_from e sec p i fr)) = hook_calls (exit_state ?l)"
    by (cases ?l) (auto simp add: each_from_def on_my_state_def split: outcome.splits)
  with s show ?thesis by auto
qed

text \<open>
  C8, amended.  Every call of \<^verbatim>\<open>eval_primary\<close> with a primary value that is not
  null calls \<^verbatim>\<open>ready\<close> once, before any subvalue is passed to \<^verbatim>\<open>eval_each\<close>
  in that call; a call with a null primary value calls no hook.  \<^verbatim>\<open>Map::ready\<close>
  and \<^verbatim>\<open>Filter::ready\<close> call \<^verbatim>\<open>setup_local_list\<close> with the name of the primary
  value when that is a list, and do nothing otherwise.
\<close>

theorem ready_once_in_each_call:
  "(\<not> is_null (m_value p) \<longrightarrow>
      (\<exists>svs. hook_calls (state_of (Each_eval_primary ready e sec p fr)) =
         hook_calls fr @ Ready_call (m_value p) # map (Each_call (m_value p)) svs)) \<and>
   (is_null (m_value p) \<longrightarrow>
      hook_calls (state_of (Each_eval_primary ready e sec p fr)) = hook_calls fr) \<and>
   Map_ready sec pv (s, ss) =
     Normal (if type_is_LIST pv then setup_local_list (name_of pv) s else s, ss) \<and>
   Filter_ready sec pv (s, ss) =
     Normal (if type_is_LIST pv then setup_local_list (name_of pv) s else s, ss)"
proof -
  have 1: "\<exists>svs. hook_calls (state_of (Each_eval_primary ready e sec p fr)) =
         hook_calls fr @ Ready_call (m_value p) # map (Each_call (m_value p)) svs"
    if nn: "\<not> is_null (m_value p)"
  proof (cases "call_ready ready sec (m_value p) fr")
    case (Throw err fr1)
    with call_ready_fields(3) [of ready sec "m_value p" fr] nn show ?thesis
      by (auto simp add: Each_eval_primary_def Let_def intro: exI [of _ "[]"])
  next
    case (Normal fr1)
    with call_ready_fields(3) [of ready sec "m_value p" fr]
    have h: "hook_calls fr1 = hook_calls fr @ [Ready_call (m_value p)]" by simp
    show ?thesis
    proof (cases "type_is_LIST (m_value p)")
      case False
      have "hook_calls (state_of (Each_eval_primary ready e sec p fr)) =
          hook_calls fr1 @ [Each_call (m_value p) (m_value p)]"
        using nn False Normal
          call_eval_each_fields(3) [of e sec "m_value p" "m_value p" fr1]
        by (auto simp add: Each_eval_primary_def Let_def on_my_state_def
            split: outcome.splits)
      with h show ?thesis by (auto intro: exI [of _ "[m_value p]"])
    next
      case True
      have "\<exists>svs. hook_calls (state_of (Each_eval_primary ready e sec p fr)) =
          hook_calls fr1 @ map (Each_call (m_value p)) svs"
      proof (cases "as_list (m_value p) = [] \<or> m_finished (my_state fr1)")
        case T: True
        then have "hook_calls (state_of (Each_eval_primary ready e sec p fr)) = hook_calls fr1"
          using nn True Normal
          by (auto simp add: Each_eval_primary_def Let_def on_my_state_def
              split: outcome.splits)
        then show ?thesis by (auto intro: exI [of _ "[]"])
      next
        case F: False
        show ?thesis
        proof (cases "initialized fr1")
          case False
          with F nn True Normal
          have "Each_eval_primary ready e sec p fr =
              each_from e sec p 0 (fr1\<lparr>initialized := True\<rparr>)"
            by (simp add: Each_eval_primary_def Let_def)
          with each_from_calls [of e sec p 0 "fr1\<lparr>initialized := True\<rparr>"]
          show ?thesis by simp
        next
          case I: True
          show ?thesis
          proof (cases "last_subvalue fr1")
            case None
            with I F nn True Normal
            have "Each_eval_primary ready e sec p fr = Throw Singular_iterator fr1"
              by (simp add: Each_eval_primary_def Let_def)
            then show ?thesis by (auto intro: exI [of _ "[]"])
          next
            case (Some j)
            with I F nn True Normal
            have "Each_eval_primary ready e sec p fr = each_from e sec p (Suc j) fr1"
              by (simp add: Each_eval_primary_def Let_def)
            with each_from_calls [of e sec p "Suc j" fr1]
            show ?thesis by simp
          qed
        qed
      qed
      with h show ?thesis by auto
    qed
  qed
  have 2: "hook_calls (state_of (Each_eval_primary ready e sec p fr)) = hook_calls fr"
    if "is_null (m_value p)"
    using that by (simp add: Each_eval_primary_def Let_def on_my_state_def
        split: outcome.splits)
  have 3: "Map_ready sec pv (s, ss) =
     Normal (if type_is_LIST pv then setup_local_list (name_of pv) s else s, ss)"
    by (simp add: Map_ready_def)
  have 4: "Filter_ready sec pv (s, ss) =
     Normal (if type_is_LIST pv then setup_local_list (name_of pv) s else s, ss)"
    by (simp add: Filter_ready_def)
  from 1 2 3 4 show ?thesis by blast
qed

theorem ready_once_in_each_call_witness:
  "\<not> is_null (m_value list_1) \<and>
   (\<exists>svs. hook_calls (state_of (Each_eval_primary Map_ready (Map_eval_each doubles) [] list_1
             (Each_eval_initialize ()))) =
      hook_calls (Each_eval_initialize ()) @
        Ready_call (m_value list_1) # map (Each_call (m_value list_1)) svs)"
  using ready_once_in_each_call [where ready = Map_ready and e = "Map_eval_each doubles"
      and sec = "[]" and p = list_1 and fr = "Each_eval_initialize ()"
      and pv = Null and s = fresh_node_eval_state and ss = "()"]
  by (simp add: list_1_def)

subsection \<open>Selector\<close>

lemma call_eval_each_Selector:
  "\<not> m_finished (my_state fr) \<Longrightarrow>
   call_eval_each (Selector_eval_each f) sec pv x fr =
     (case f sec (subsubstate fr) x of
        (pass, ss') \<Rightarrow>
          Normal (fr\<lparr>my_state := (if pass then \<lparr>m_value = x, m_finished = True\<rparr> else my_state fr),
                     subsubstate := ss',
                     hook_calls := hook_calls fr @ [Each_call pv x]\<rparr>))"
  by (simp add: call_eval_each_def Selector_eval_each_def after_hook_def with_substate_def
      finish_with_def finish_def split: prod.splits)

lemma selector_loop:
  assumes "\<not> m_finished (my_state fr)"
  shows "case select_first f sec (subsubstate fr) xs of
           (asked, found, ss) \<Rightarrow>
             (case found of
                Some x \<Rightarrow>
                  (\<exists>fr'. each_loop (Selector_eval_each f) sec pv xs i fr = Returned fr' \<and>
                     my_state fr' = \<lparr>m_value = x, m_finished = True\<rparr> \<and>
                     subsubstate fr' = ss \<and> delivered fr' = delivered fr @ asked)
              | None \<Rightarrow>
                  (\<exists>fr'. each_loop (Selector_eval_each f) sec pv xs i fr = Exhausted fr' \<and>
                     my_state fr' = my_state fr \<and>
                     subsubstate fr' = ss \<and> delivered fr' = delivered fr @ asked))"
  using assms
proof (induction xs arbitrary: i fr)
  case Nil
  then show ?case by simp
next
  case (Cons x xs)
  obtain pass ss' where f: "f sec (subsubstate fr) x = (pass, ss')"
    by (cases "f sec (subsubstate fr) x")
  show ?case
  proof (cases pass)
    case True
    with f Cons.prems show ?thesis
      by (simp add: call_eval_each_Selector delivered_def)
  next
    case False
    let ?fr1 = "fr\<lparr>my_state := my_state fr, subsubstate := ss',
                   hook_calls := hook_calls fr @ [Each_call pv x]\<rparr>"
    let ?fr2 = "?fr1\<lparr>last_subvalue := Some i\<rparr>"
    have c: "call_eval_each (Selector_eval_each f) sec pv x fr = Normal ?fr1"
      using f False Cons.prems by (simp add: call_eval_each_Selector)
    have u: "\<not> m_finished (my_state ?fr2)" using Cons.prems by simp
    have s2: "subsubstate ?fr2 = ss'" "delivered ?fr2 = delivered fr @ [x]"
      "my_state ?fr2 = my_state fr"
      by (simp_all add: delivered_def)
    from Cons.IH [OF u, where i = "Suc i"] s2 c f False Cons.prems
    show ?thesis
      by (auto split: prod.splits option.splits)
  qed
qed

text \<open>
  C5.  One call of \<^verbatim>\<open>eval_primary\<close> of a \<^verbatim>\<open>Selector\<close> on a list primary
  returns normally.  On a running node (whose cursor is as the calls before left it)
  \<^verbatim>\<open>eval_selector\<close> is asked the elements after the cursor, in order, up to and
  with the first for which it returns true (\<open>select_first\<close>); the node finishes with
  that element, and the elements after it are not asked.  When none passes, all are
  asked, and the node finishes (without a value) exactly when the primary argument is
  finished.  On a finished node the call asks nothing and leaves the node and the state
  of the functional as they are.  The frames between the calls of a run have their
  cursor so (\<open>Each_run_inv\<close>, \<open>cursor_inv_running\<close>), and there the elements after
  the cursor are those not yet delivered.
\<close>

theorem Selector_first_match:
  assumes lst: "type_is_LIST (m_value p)"
    and cur: "\<not> m_finished (my_state fr) \<longrightarrow> initialized fr = (last_subvalue fr \<noteq> None)"
  shows "\<exists>fr'. Each_eval_primary Each_ready (Selector_eval_each f) sec p fr = Normal fr' \<and>
           (if m_finished (my_state fr)
            then my_state fr' = my_state fr \<and> subsubstate fr' = subsubstate fr \<and>
                 delivered fr' = delivered fr
            else (case select_first f sec (subsubstate fr)
                         (drop (cursor fr) (as_list (m_value p))) of
                    (asked, found, ss) \<Rightarrow>
                      delivered fr' = delivered fr @ asked \<and> subsubstate fr' = ss \<and>
                      my_state fr' =
                        (case found of
                           Some x \<Rightarrow> \<lparr>m_value = x, m_finished = True\<rparr>
                         | None \<Rightarrow> (my_state fr)\<lparr>m_finished := m_finished p\<rparr>)))"
proof -
  have nn: "\<not> is_null (m_value p)"
    using lst by (cases "m_value p") auto
  let ?fr1 = "fr\<lparr>hook_calls := hook_calls fr @ [Ready_call (m_value p)]\<rparr>"
  have r: "call_ready Each_ready sec (m_value p) fr = Normal ?fr1"
    by (simp add: call_ready_def Each_ready_def after_hook_def)
  have d1: "delivered ?fr1 = delivered fr" "cursor ?fr1 = cursor fr"
    by (simp_all add: delivered_def cursor_def)
  show ?thesis
  proof (cases "m_finished (my_state fr)")
    case True
    then have "Each_eval_primary Each_ready (Selector_eval_each f) sec p fr = Normal ?fr1"
      using r nn lst by (simp add: Each_eval_primary_def Let_def)
    with True d1 show ?thesis by simp
  next
    case un: False
    with cur have c: "initialized fr = (last_subvalue fr \<noteq> None)" by simp
    show ?thesis
    proof (cases "as_list (m_value p) = []")
      case True
      then have "Each_eval_primary Each_ready (Selector_eval_each f) sec p fr =
          Normal (?fr1\<lparr>my_state := (my_state fr)\<lparr>m_finished := m_finished p\<rparr>\<rparr>)"
        using r nn lst un
        by (simp add: Each_eval_primary_def Let_def on_my_state_finish)
      with un True d1 show ?thesis by simp
    next
      case ne: False
      define fr0 where "fr0 = (if initialized fr then ?fr1 else ?fr1\<lparr>initialized := True\<rparr>)"
      have e0: "Each_eval_primary Each_ready (Selector_eval_each f) sec p fr =
          each_from (Selector_eval_each f) sec p (cursor fr) fr0"
        using r nn lst un ne c
        by (auto simp add: Each_eval_primary_def Let_def fr0_def cursor_def)
      have f0: "\<not> m_finished (my_state fr0)" "subsubstate fr0 = subsubstate fr"
        "delivered fr0 = delivered fr" "my_state fr0 = my_state fr"
        using un by (simp_all add: fr0_def delivered_def)
      note L = selector_loop [where f = f and sec = sec and pv = "m_value p"
          and xs = "drop (cursor fr) (as_list (m_value p))" and i = "cursor fr", OF f0(1)]
      obtain asked found ss where sf:
        "select_first f sec (subsubstate fr) (drop (cursor fr) (as_list (m_value p)))
           = (asked, found, ss)"
        by (cases "select_first f sec (subsubstate fr) (drop (cursor fr) (as_list (m_value p)))")
      show ?thesis
      proof (cases found)
        case None
        with L sf f0 obtain fr3 where l3:
          "each_loop (Selector_eval_each f) sec (m_value p)
             (drop (cursor fr) (as_list (m_value p))) (cursor fr) fr0 = Exhausted fr3"
          "my_state fr3 = my_state fr" "subsubstate fr3 = ss"
          "delivered fr3 = delivered fr @ asked"
          by auto
        with un e0 sf None show ?thesis
          by (auto simp add: each_from_def on_my_state_finish)
      next
        case (Some x)
        with L sf f0 obtain fr3 where l3:
          "each_loop (Selector_eval_each f) sec (m_value p)
             (drop (cursor fr) (as_list (m_value p))) (cursor fr) fr0 = Returned fr3"
          "my_state fr3 = \<lparr>m_value = x, m_finished = True\<rparr>" "subsubstate fr3 = ss"
          "delivered fr3 = delivered fr @ asked"
          by auto
        with un e0 sf Some show ?thesis
          by (auto simp add: each_from_def)
      qed
    qed
  qed
qed

theorem Selector_first_match_witness:
  "type_is_LIST (m_value list_2_5_8) \<and>
   Each_eval_primary Each_ready (Selector_eval_each above_4) [] list_2_5_8
       (Each_eval_initialize []) =
     Normal \<lparr>my_state = \<lparr>m_value = Number 5, m_finished = True\<rparr>, initialized = True,
             last_subvalue = Some 0, subsubstate = [Number 2, Number 5],
             hook_calls = [Ready_call (m_value list_2_5_8),
                           Each_call (m_value list_2_5_8) (Number 2),
                           Each_call (m_value list_2_5_8) (Number 5)]\<rparr> \<and>
   select_first above_4 [] [] [Number 2, Number 5, Number 8] =
     ([Number 2, Number 5], Some (Number 5), [Number 2, Number 5])"
proof -
  have l: "type_is_LIST (m_value list_2_5_8)" by (simp add: list_2_5_8_def)
  have c: "\<not> m_finished (my_state (Each_eval_initialize ([]::val list))) \<longrightarrow>
      initialized (Each_eval_initialize ([]::val list)) =
        (last_subvalue (Each_eval_initialize ([]::val list)) \<noteq> None)"
    by (simp add: Each_eval_initialize_def)
  have r: "Each_eval_primary Each_ready (Selector_eval_each above_4) [] list_2_5_8
       (Each_eval_initialize []) =
     Normal \<lparr>my_state = \<lparr>m_value = Number 5, m_finished = True\<rparr>, initialized = True,
             last_subvalue = Some 0, subsubstate = [Number 2, Number 5],
             hook_calls = [Ready_call (m_value list_2_5_8),
                           Each_call (m_value list_2_5_8) (Number 2),
                           Each_call (m_value list_2_5_8) (Number 5)]\<rparr>"
    by code_simp
  have s: "select_first above_4 [] [] [Number 2, Number 5, Number 8] =
     ([Number 2, Number 5], Some (Number 5), [Number 2, Number 5])"
    by code_simp
  from Selector_first_match [where f = above_4 and sec = "[]", OF l c] l r s
  show ?thesis by simp
qed

subsection \<open>Filter\<close>

lemma call_eval_each_Filter:
  assumes "\<not> m_finished (my_state fr)" and "m_value (my_state fr) = ListV n out"
    and "type_is_LIST pv"
  shows "call_eval_each (Filter_eval_each f) sec pv x fr =
     (case f sec (subsubstate fr) x of
        (pass, early, ss') \<Rightarrow>
          Normal (fr\<lparr>my_state :=
                       \<lparr>m_value = ListV n (out @ (if pass then [x] else [])),
                        m_finished = early\<rparr>,
                     subsubstate := ss',
                     hook_calls := hook_calls fr @ [Each_call pv x]\<rparr>))"
  using assms
  by (simp add: call_eval_each_def Filter_eval_each_def after_hook_def with_substate_def
      append_to_list_def finish_def split: prod.splits)

lemma filter_loop:
  assumes "\<not> m_finished (my_state fr)" and "m_value (my_state fr) = ListV n out"
    and "type_is_LIST pv"
  shows "case filter_until f sec (subsubstate fr) xs of
           (asked, passed, early, ss) \<Rightarrow>
             (\<exists>fr'. each_loop (Filter_eval_each f) sec pv xs i fr =
                       (if early then Returned fr' else Exhausted fr') \<and>
                m_value (my_state fr') = ListV n (out @ passed) \<and>
                m_finished (my_state fr') = early \<and>
                subsubstate fr' = ss \<and> delivered fr' = delivered fr @ asked)"
  using assms(1,2)
proof (induction xs arbitrary: i fr out)
  case Nil
  then show ?case by simp
next
  case (Cons x xs)
  obtain pass early ss' where f: "f sec (subsubstate fr) x = (pass, early, ss')"
    by (cases "f sec (subsubstate fr) x")
  let ?out' = "out @ (if pass then [x] else [])"
  let ?fr1 = "fr\<lparr>my_state := \<lparr>m_value = ListV n ?out', m_finished = early\<rparr>,
                 subsubstate := ss', hook_calls := hook_calls fr @ [Each_call pv x]\<rparr>"
  have c: "call_eval_each (Filter_eval_each f) sec pv x fr = Normal ?fr1"
    using f call_eval_each_Filter [OF Cons.prems assms(3), of f sec x] by simp
  show ?case
  proof (cases early)
    case True
    with f c show ?thesis
      by (simp add: delivered_def)
  next
    case False
    let ?fr2 = "?fr1\<lparr>last_subvalue := Some i\<rparr>"
    have u: "\<not> m_finished (my_state ?fr2)" "m_value (my_state ?fr2) = ListV n ?out'"
      using False by simp_all
    have s2: "subsubstate ?fr2 = ss'" "delivered ?fr2 = delivered fr @ [x]"
      by (simp_all add: delivered_def)
    from Cons.IH [OF u, where i = "Suc i"] s2 c f False
    show ?thesis
      by (auto split: prod.splits)
  qed
qed

text \<open>
  C6.  One call of \<^verbatim>\<open>eval_primary\<close> of a \<^verbatim>\<open>Filter\<close> on a list primary returns
  normally.  Let the node be running, with its cursor as the calls before left it, and
  let \<open>n\<close> and \<open>out\<close> be the name and the elements of its output list once
  \<^verbatim>\<open>ready\<close> has run (the empty list under the name of the primary, on a new
  node).  \<^verbatim>\<open>eval_filter\<close> is asked the elements after the cursor, in order, up to
  and with the first one for which it sets \<^verbatim>\<open>early_finish\<close> (\<open>filter_until\<close>); the
  elements after that one are not asked, though they are in the list.  After the call
  the output list is \<open>out\<close> followed by the elements asked that passed, and the node
  is finished when \<^verbatim>\<open>early_finish\<close> was set, whether the primary argument is
  finished or not; otherwise it is finished exactly when the primary argument is.  On a
  finished node the call asks nothing and the node stays finished.
\<close>

theorem Filter_early_finish:
  assumes lst: "type_is_LIST (m_value p)"
    and cur: "\<not> m_finished (my_state fr) \<longrightarrow> initialized fr = (last_subvalue fr \<noteq> None)"
    and out: "\<not> m_finished (my_state fr) \<longrightarrow>
                setup_local_list (name_of (m_value p)) (my_state fr) =
                  \<lparr>m_value = ListV n out, m_finished = False\<rparr>"
  shows "\<exists>fr'. Each_eval_primary Filter_ready (Filter_eval_each f) sec p fr = Normal fr' \<and>
           (if m_finished (my_state fr)
            then m_finished (my_state fr') \<and> subsubstate fr' = subsubstate fr \<and>
                 delivered fr' = delivered fr
            else (case filter_until f sec (subsubstate fr)
                         (drop (cursor fr) (as_list (m_value p))) of
                    (asked, passed, early, ss) \<Rightarrow>
                      delivered fr' = delivered fr @ asked \<and> subsubstate fr' = ss \<and>
                      my_state fr' =
                        \<lparr>m_value = ListV n (out @ passed),
                         m_finished = (early \<or> m_finished p)\<rparr>))"
proof -
  have nn: "\<not> is_null (m_value p)"
    using lst by (cases "m_value p") auto
  let ?s1 = "setup_local_list (name_of (m_value p)) (my_state fr)"
  let ?fr1 = "fr\<lparr>my_state := ?s1, hook_calls := hook_calls fr @ [Ready_call (m_value p)]\<rparr>"
  have r: "call_ready Filter_ready sec (m_value p) fr = Normal ?fr1"
    using lst by (simp add: call_ready_def Filter_ready_def after_hook_def)
  have d1: "delivered ?fr1 = delivered fr" "cursor ?fr1 = cursor fr"
    by (simp_all add: delivered_def cursor_def)
  have fs: "m_finished ?s1 = m_finished (my_state fr)"
    by (simp add: setup_local_list_def)
  show ?thesis
  proof (cases "m_finished (my_state fr)")
    case True
    then have "Each_eval_primary Filter_ready (Filter_eval_each f) sec p fr = Normal ?fr1"
      using r nn lst fs by (simp add: Each_eval_primary_def Let_def)
    with True d1 fs show ?thesis by simp
  next
    case un: False
    with cur out have c: "initialized fr = (last_subvalue fr \<noteq> None)"
      and s1: "?s1 = \<lparr>m_value = ListV n out, m_finished = False\<rparr>"
      by simp_all
    show ?thesis
    proof (cases "as_list (m_value p) = []")
      case True
      then have "Each_eval_primary Filter_ready (Filter_eval_each f) sec p fr =
          Normal (?fr1\<lparr>my_state := ?s1\<lparr>m_finished := m_finished p\<rparr>\<rparr>)"
        using r nn lst un fs
        by (simp add: Each_eval_primary_def Let_def on_my_state_finish)
      with un True s1 show ?thesis by (simp add: delivered_def)
    next
      case ne: False
      define fr0 where "fr0 = (if initialized fr then ?fr1 else ?fr1\<lparr>initialized := True\<rparr>)"
      have e0: "Each_eval_primary Filter_ready (Filter_eval_each f) sec p fr =
          each_from (Filter_eval_each f) sec p (cursor fr) fr0"
        using r nn lst un ne c fs
        by (auto simp add: Each_eval_primary_def Let_def fr0_def cursor_def)
      have f0: "\<not> m_finished (my_state fr0)" "m_value (my_state fr0) = ListV n out"
        "subsubstate fr0 = subsubstate fr" "delivered fr0 = delivered fr"
        using s1 by (simp_all add: fr0_def delivered_def)
      note L = filter_loop [where f = f and sec = sec and pv = "m_value p"
          and xs = "drop (cursor fr) (as_list (m_value p))" and i = "cursor fr",
          OF f0(1) f0(2) lst]
      obtain asked passed early ss where sf:
        "filter_until f sec (subsubstate fr) (drop (cursor fr) (as_list (m_value p)))
           = (asked, passed, early, ss)"
        by (cases "filter_until f sec (subsubstate fr) (drop (cursor fr) (as_list (m_value p)))")
          auto
      with L f0 obtain fr3 where l3:
        "each_loop (Filter_eval_each f) sec (m_value p)
           (drop (cursor fr) (as_list (m_value p))) (cursor fr) fr0 =
             (if early then Returned fr3 else Exhausted fr3)"
        "m_value (my_state fr3) = ListV n (out @ passed)" "m_finished (my_state fr3) = early"
        "subsubstate fr3 = ss" "delivered fr3 = delivered fr @ asked"
        by auto
      have m3: "my_state fr3 = \<lparr>m_value = ListV n (out @ passed), m_finished = early\<rparr>"
        using l3(2,3) by (cases "my_state fr3") simp
      show ?thesis
      proof (cases early)
        case True
        with l3 m3 un e0 sf show ?thesis
          by (auto simp add: each_from_def)
      next
        case False
        with l3 m3 un e0 sf show ?thesis
          by (auto simp add: each_from_def on_my_state_finish)
      qed
    qed
  qed
qed

theorem Filter_early_finish_witness:
  "type_is_LIST (m_value list_1_2_3_4) \<and>
   Each_eval_primary Filter_ready (Filter_eval_each odd_until_above_2) [] list_1_2_3_4
       (Each_eval_initialize []) =
     Normal \<lparr>my_state = \<lparr>m_value = ListV ''xs'' [Number 1, Number 3], m_finished = True\<rparr>,
             initialized = True, last_subvalue = Some 1,
             subsubstate = [Number 1, Number 2, Number 3],
             hook_calls = [Ready_call (m_value list_1_2_3_4),
                           Each_call (m_value list_1_2_3_4) (Number 1),
                           Each_call (m_value list_1_2_3_4) (Number 2),
                           Each_call (m_value list_1_2_3_4) (Number 3)]\<rparr> \<and>
   filter_until odd_until_above_2 [] [] [Number 1, Number 2, Number 3, Number 4] =
     ([Number 1, Number 2, Number 3], [Number 1, Number 3], True,
      [Number 1, Number 2, Number 3])"
proof -
  have l: "type_is_LIST (m_value list_1_2_3_4)" by (simp add: list_1_2_3_4_def)
  have c: "\<not> m_finished (my_state (Each_eval_initialize ([]::val list))) \<longrightarrow>
      initialized (Each_eval_initialize ([]::val list)) =
        (last_subvalue (Each_eval_initialize ([]::val list)) \<noteq> None)"
    by (simp add: Each_eval_initialize_def)
  have o: "\<not> m_finished (my_state (Each_eval_initialize ([]::val list))) \<longrightarrow>
      setup_local_list (name_of (m_value list_1_2_3_4))
        (my_state (Each_eval_initialize ([]::val list))) =
          \<lparr>m_value = ListV ''xs'' [], m_finished = False\<rparr>"
    by (simp add: Each_eval_initialize_def list_1_2_3_4_def setup_local_list_def
        fresh_node_eval_state_def)
  have r: "Each_eval_primary Filter_ready (Filter_eval_each odd_until_above_2) [] list_1_2_3_4
       (Each_eval_initialize []) =
     Normal \<lparr>my_state = \<lparr>m_value = ListV ''xs'' [Number 1, Number 3], m_finished = True\<rparr>,
             initialized = True, last_subvalue = Some 1,
             subsubstate = [Number 1, Number 2, Number 3],
             hook_calls = [Ready_call (m_value list_1_2_3_4),
                           Each_call (m_value list_1_2_3_4) (Number 1),
                           Each_call (m_value list_1_2_3_4) (Number 2),
                           Each_call (m_value list_1_2_3_4) (Number 3)]\<rparr>"
    by code_simp
  have s: "filter_until odd_until_above_2 [] [] [Number 1, Number 2, Number 3, Number 4] =
     ([Number 1, Number 2, Number 3], [Number 1, Number 3], True,
      [Number 1, Number 2, Number 3])"
    by code_simp
  from Filter_early_finish [where f = odd_until_above_2 and sec = "[]", OF l c o] l r s
  show ?thesis by simp
qed

subsection \<open>Call::transform\<close>

lemma set_index_fields [simp]:
  "children (set_index p i st q) = children (st q)"
  "literal (set_index p i st q) = literal (st q)"
  "to_s (set_index p i st q) = to_s (st q)"
  "index (set_index p i st q) = (if q = p then i else index (st q))"
  by (simp_all add: set_index_def)

lemma set_indices_snd: "snd (set_indices cs i st) = i + length cs"
  by (induction cs arbitrary: i st) auto

lemma set_indices_fields:
  "children (fst (set_indices cs i st) q) = children (st q)"
  "literal (fst (set_indices cs i st) q) = literal (st q)"
  "to_s (fst (set_indices cs i st) q) = to_s (st q)"
  by (induction cs arbitrary: i st) auto

lemma set_indices_other:
  "q \<notin> set cs \<Longrightarrow> index (fst (set_indices cs i st) q) = index (st q)"
  by (induction cs arbitrary: i st) auto

lemma set_indices_index:
  "k < length cs \<Longrightarrow> cs ! k \<notin> set (drop (Suc k) cs) \<Longrightarrow>
   index (fst (set_indices cs i st) (cs ! k)) = i + k"
proof (induction cs arbitrary: i st k)
  case Nil
  then show ?case by simp
next
  case (Cons c cs)
  show ?case
  proof (cases k)
    case 0
    with Cons.prems show ?thesis
      by (simp add: set_indices_other)
  next
    case (Suc k')
    with Cons.prems Cons.IH [of k' "Suc i" "set_index c i st"] show ?thesis
      by simp
  qed
qed

lemma is_literal_set_indices [simp]:
  "is_literal (fst (set_indices cs i st)) = is_literal st"
  "literal_value (fst (set_indices cs i st)) = literal_value st"
  by (auto simp add: is_literal_def literal_value_def set_indices_fields fun_eq_iff)

lemma is_literal_set_index [simp]:
  "is_literal (set_index p i st) = is_literal st"
  "literal_value (set_index p i st) = literal_value st"
  by (auto simp add: is_literal_def literal_value_def fun_eq_iff)

lemma initialize_args_once:
  "\<forall>c \<in> set cs. is_literal st c \<Longrightarrow>
   \<exists>inits. initialize_args st cs I evs = Inr (evs @ map (\<lambda>c. Initialize c False) inits) \<and>
           distinct inits \<and> set inits = set cs - I"
proof (induction cs arbitrary: I evs)
  case Nil
  then show ?case by simp
next
  case (Cons c cs)
  show ?case
  proof (cases "c \<in> I")
    case True
    from Cons.IH [of I evs] Cons.prems obtain inits where
      "initialize_args st cs I evs = Inr (evs @ map (\<lambda>c. Initialize c False) inits)"
      "distinct inits" "set inits = set cs - I"
      by auto
    with True Cons.prems show ?thesis by auto
  next
    case False
    from Cons.IH [of "insert c I" "evs @ [Initialize c False]"] Cons.prems obtain inits where
      i: "initialize_args st cs (insert c I) (evs @ [Initialize c False]) =
        Inr ((evs @ [Initialize c False]) @ map (\<lambda>c. Initialize c False) inits)"
      "distinct inits" "set inits = set cs - insert c I"
      by auto
    with False Cons.prems show ?thesis
      by (auto intro!: exI [of _ "c # inits"])
  qed
qed

lemma static_args_of_eq:
  "static_args_of st n cs =
     (if n \<le> length cs then Some (map (literal_value st) (take n cs)) else None)"
  by (induction st n cs rule: static_args_of.induct) auto

text \<open>
  C1.  \<^verbatim>\<open>Call::transform\<close> on a call node all of whose children are literal, with
  at least \<open>num_static_args\<close> children (as \<^verbatim>\<open>pre_transform\<close> checks) and not its
  own child.  The node is given index 0 and the child at position \<open>k\<close> index \<open>k + 1\<close>
  (a node that is an argument twice keeps the index of its last position; see
  \<open>Call_transform_shared_child\<close>); no other field of a node changes.  The events are,
  in order: a graph evaluation state of size \<open>K + 1\<close> for \<open>K\<close> children; one
  initialization with the empty context for each distinct child; the preparation of
  the functional with the values of the static arguments; one initialization and one
  evaluation of the node with the context of the scratch pool; and then, when the node
  is finished, its replacement by a literal that holds the value and the pool, with
  the answer true, or else \<^verbatim>\<open>Base::transform\<close>, whose answer is the answer.
\<close>

theorem Call_transform_folds:
  assumes lit: "\<forall>c \<in> set (children (st me)). is_literal st c"
    and ar: "ns \<le> length (children (st me))"
    and me: "me \<notin> set (children (st me))"
  shows "\<exists>st' inits.
           Call_transform ns isolated_eval base_transform st me =
             Inr (if m_finished (isolated_eval st' me
                       (map (literal_value st) (take ns (children (st me)))))
                  then True else base_transform st' me,
                  st',
                  New_GraphEvalState (Suc (length (children (st me)))) #
                  map (\<lambda>c. Initialize c False) inits @
                  [Prepare (map (literal_value st) (take ns (children (st me)))),
                   Initialize me True, Eval me,
                   if m_finished (isolated_eval st' me
                        (map (literal_value st) (take ns (children (st me)))))
                   then Replace me (m_value (isolated_eval st' me
                        (map (literal_value st) (take ns (children (st me))))))
                   else Base_transform me]) \<and>
           distinct inits \<and> set inits = set (children (st me)) \<and>
           index (st' me) = 0 \<and>
           (\<forall>k < length (children (st me)).
              children (st me) ! k \<notin> set (drop (Suc k) (children (st me))) \<longrightarrow>
              index (st' (children (st me) ! k)) = Suc k) \<and>
           (\<forall>p. children (st' p) = children (st p) \<and> literal (st' p) = literal (st p))"
proof -
  let ?cs = "children (st me)"
  let ?st0 = "set_index me 0 st"
  obtain st' where si: "set_indices ?cs (Suc 0) ?st0 = (st', Suc (length ?cs))"
    using set_indices_snd [of ?cs "Suc 0" ?st0] by (cases "set_indices ?cs (Suc 0) ?st0") simp
  then have st': "st' = fst (set_indices ?cs (Suc 0) ?st0)"
    by simp
  have fr: "children (st' p) = children (st p) \<and> literal (st' p) = literal (st p)" for p
    unfolding st' by (simp add: set_indices_fields)
  have lv: "literal_value st' = literal_value st" "is_literal st' = is_literal st"
    unfolding st' by simp_all
  have lit': "\<forall>c \<in> set ?cs. is_literal st' c"
    using lit lv by simp
  from initialize_args_once [OF lit', of "{}" "[New_GraphEvalState (Suc (length ?cs))]"]
  obtain inits where i:
    "initialize_args st' ?cs {} [New_GraphEvalState (Suc (length ?cs))] =
       Inr ([New_GraphEvalState (Suc (length ?cs))] @ map (\<lambda>c. Initialize c False) inits)"
    "distinct inits" "set inits = set ?cs"
    by auto
  have sa: "static_args_of st' ns ?cs = Some (map (literal_value st) (take ns ?cs))"
    using ar lv by (simp add: static_args_of_eq)
  have la: "list_all (is_literal st) ?cs"
    using lit by (simp add: list_all_iff)
  have t: "Call_transform ns isolated_eval base_transform st me =
             Inr (if m_finished (isolated_eval st' me (map (literal_value st) (take ns ?cs)))
                  then True else base_transform st' me,
                  st',
                  New_GraphEvalState (Suc (length ?cs)) #
                  map (\<lambda>c. Initialize c False) inits @
                  [Prepare (map (literal_value st) (take ns ?cs)),
                   Initialize me True, Eval me,
                   if m_finished (isolated_eval st' me (map (literal_value st) (take ns ?cs)))
                   then Replace me (m_value (isolated_eval st' me
                        (map (literal_value st) (take ns ?cs))))
                   else Base_transform me])"
    using fr [of me] by (simp add: Call_transform_def la si i(1) sa Let_def)
  have i0: "index (st' me) = 0"
    unfolding st' using me by (simp add: set_indices_other)
  have ik: "index (st' (?cs ! k)) = Suc k"
    if "k < length ?cs" "?cs ! k \<notin> set (drop (Suc k) ?cs)" for k
    unfolding st' using set_indices_index [OF that, of "Suc 0" ?st0] by simp
  from t i(2,3) i0 ik fr show ?thesis
    by blast
qed

theorem Call_transform_folds_witness:
  "list_all (is_literal sum_store) (children (sum_store 0)) \<and>
   0 \<notin> set (children (sum_store 0)) \<and>
   (case Call_transform 0 finishes_with_8 (\<lambda>st me. False) sum_store 0 of
      Inl e \<Rightarrow> False
    | Inr (r, st', evs) \<Rightarrow>
        r \<and> index (st' 0) = 0 \<and> index (st' 1) = 1 \<and> index (st' 2) = 2 \<and>
        evs = [New_GraphEvalState 3, Initialize 1 False, Initialize 2 False, Prepare [],
               Initialize 0 True, Eval 0, Replace 0 (Number 8)])"
proof -
  have l: "\<forall>c \<in> set (children (sum_store 0)). is_literal sum_store c"
    by (simp add: sum_store_def is_literal_def)
  have a: "0 \<le> length (children (sum_store 0))" by simp
  have m: "0 \<notin> set (children (sum_store 0))"
    by (simp add: sum_store_def)
  have r: "case Call_transform 0 finishes_with_8 (\<lambda>st me. False) sum_store 0 of
      Inl e \<Rightarrow> False
    | Inr (r, st', evs) \<Rightarrow>
        r \<and> index (st' 0) = 0 \<and> index (st' 1) = 1 \<and> index (st' 2) = 2 \<and>
        evs = [New_GraphEvalState 3, Initialize 1 False, Initialize 2 False, Prepare [],
               Initialize 0 True, Eval 0, Replace 0 (Number 8)]"
    by code_simp
  from Call_transform_folds [OF l a m, of finishes_with_8 "\<lambda>st me. False"] l m r
  show ?thesis by (simp add: list_all_iff)
qed

lemma Call_transform_shared_child:
  "case Call_transform 0 finishes_with_8 (\<lambda>st me. False)
          (\<lambda>p. \<lparr>children = (if p = 0 then [1, 1] else []),
                literal = (if p = 1 then Some (Number 4) else None), index = 7, to_s = []\<rparr>) 0 of
      Inl e \<Rightarrow> False
    | Inr (r, st', evs) \<Rightarrow>
        r \<and> index (st' 0) = 0 \<and> index (st' 1) = 2 \<and>
        evs = [New_GraphEvalState 3, Initialize 1 False, Prepare [],
               Initialize 0 True, Eval 0, Replace 0 (Number 8)]"
  by code_simp

end
